theory Spec2Isabelle
  imports Complex_Main
begin

section \<open>Shared vocabulary\<close>

text \<open>
  The exceptions of the Python source that the model keeps as values. \<open>QueueEmpty\<close> and
  \<open>QueueFull\<close> are \<^verbatim>\<open>queue.Empty\<close> and \<^verbatim>\<open>queue.Full\<close>; \<open>DetectionError\<close> stands for any
  exception of the detection and encoding capability.
\<close>

datatype py_error =
  IndexError | UnboundLocalError | OSError | QueueEmpty | QueueFull | DetectionError

subsection \<open>Configuration (config.py)\<close>

definition UNKNOWN_CAPTURE_DEBOUNCE_TIME :: real where
  "UNKNOWN_CAPTURE_DEBOUNCE_TIME = 10"

definition KNOWN_FACE_LOG_DEBOUNCE_TIME :: real where
  "KNOWN_FACE_LOG_DEBOUNCE_TIME = 25"

definition RECOGNITION_TOLERANCE :: real where
  "RECOGNITION_TOLERANCE = 6 / 10"

definition INTRUDERS_FOLDER :: string where
  "INTRUDERS_FOLDER = ''intruders''"

section \<open>The face match engine\<close>

text \<open>
  The distance between two descriptors is the opaque capability of the recognition
  library; it is a parameter \<open>distf\<close> of every definition below, with the stored
  descriptor first and the probe second. \<open>face_distance\<close> and \<open>compare_faces\<close> are the
  library's list versions: the distances to every stored descriptor, and the flags
  "distance within tolerance". \<open>argmin\<close> is \<^verbatim>\<open>np.argmin\<close>: the first index of the
  smallest element. The source calls it on non-empty lists only. Distances are real
  numbers here; the not-a-number of floating point is outside the model.
\<close>

definition face_distance :: "('d \<Rightarrow> 'd \<Rightarrow> real) \<Rightarrow> 'd list \<Rightarrow> 'd \<Rightarrow> real list" where
  "face_distance distf face_encodings face_to_compare =
     map (\<lambda>e. distf e face_to_compare) face_encodings"

definition compare_faces :: "('d \<Rightarrow> 'd \<Rightarrow> real) \<Rightarrow> 'd list \<Rightarrow> 'd \<Rightarrow> real \<Rightarrow> bool list" where
  "compare_faces distf known_face_encodings face_encoding_to_check tolerance =
     map (\<lambda>x. x \<le> tolerance) (face_distance distf known_face_encodings face_encoding_to_check)"

fun argmin :: "real list \<Rightarrow> nat" where
  "argmin [] = 0"
| "argmin (x # xs) = (if \<forall>y \<in> set xs. x \<le> y then 0 else Suc (argmin xs))"

section \<open>The intruder registry (intruder_tracker.py)\<close>

text \<open>
  The pickle file holds a pair (list of encodings, list of ids). \<open>db_file\<close> is its
  content, \<open>None\<close> when the file is missing, empty or unreadable; \<open>db_writable\<close> says
  whether opening it for writing succeeds; \<open>db_saves\<close> counts the completed calls of
  \<open>save_intruder_db\<close>.
\<close>

record 'd intruder_store =
  db_file :: "('d list \<times> string list) option"
  db_writable :: bool
  db_saves :: nat

definition load_intruder_db :: "'d intruder_store \<Rightarrow> 'd list \<times> string list" where
  "load_intruder_db st = (case db_file st of None \<Rightarrow> ([], []) | Some p \<Rightarrow> p)"

definition save_intruder_db ::
  "'d list \<Rightarrow> string list \<Rightarrow> 'd intruder_store \<Rightarrow> py_error + 'd intruder_store" where
  "save_intruder_db encodings ids st =
     (if db_writable st
      then Inr (st\<lparr>db_file := Some (encodings, ids), db_saves := Suc (db_saves st)\<rparr>)
      else Inl OSError)"

text \<open>Python's \<^verbatim>\<open>str\<close> of a non-negative integer, as the f-string of the new id uses it.\<close>

definition digit_char :: "nat \<Rightarrow> char" where
  "digit_char d = ''0123456789'' ! d"

fun str_nat :: "nat \<Rightarrow> string" where
  "str_nat n = (if n < 10 then [digit_char n] else str_nat (n div 10) @ [digit_char (n mod 10)])"

declare str_nat.simps [simp del]

definition intruder_id :: "nat \<Rightarrow> string" where
  "intruder_id k = ''Intruder_'' @ str_nat k"

definition match_or_add_intruder ::
  "('d \<Rightarrow> 'd \<Rightarrow> real) \<Rightarrow> real \<Rightarrow> 'd intruder_store \<Rightarrow> 'd \<Rightarrow> py_error + (string \<times> 'd intruder_store)" where
  "match_or_add_intruder distf threshold st new_encoding =
     (let (encodings, ids) = load_intruder_db st;
          matches = compare_faces distf encodings new_encoding threshold;
          face_distances = face_distance distf encodings new_encoding
      in if encodings \<noteq> [] \<and> True \<in> set matches then
           (let best_match_index = argmin face_distances
            in if best_match_index < length ids
               then Inr (ids ! best_match_index, st)
               else Inl IndexError)
         else
           (let new_intruder_id = intruder_id (length ids + 1)
            in case save_intruder_db (encodings @ [new_encoding]) (ids @ [new_intruder_id]) st of
                 Inl e \<Rightarrow> Inl e
               | Inr st' \<Rightarrow> Inr (new_intruder_id, st')))"

text \<open>
  The specification's match operation, written from its words: the entry of the
  reference set at minimum distance, accepted when that distance is within the
  tolerance, and no match on an empty reference set.
\<close>

definition spec_match :: "('d \<Rightarrow> 'd \<Rightarrow> real) \<Rightarrow> real \<Rightarrow> ('d \<times> 'l) list \<Rightarrow> 'd \<Rightarrow> 'l option" where
  "spec_match distf tolerance R d =
     (if R = [] then None
      else let i = argmin (map (\<lambda>r. distf (fst r) d) R)
           in if distf (fst (R ! i)) d \<le> tolerance then Some (snd (R ! i)) else None)"

text \<open>Resolving a list of descriptors one at a time, each call seeing the registry the
  previous one left.\<close>

fun resolve_all ::
  "('d \<Rightarrow> 'd \<Rightarrow> real) \<Rightarrow> real \<Rightarrow> 'd intruder_store \<Rightarrow> 'd list \<Rightarrow> py_error + (string list \<times> 'd intruder_store)" where
  "resolve_all distf threshold st [] = Inr ([], st)"
| "resolve_all distf threshold st (d # ds) =
     (case match_or_add_intruder distf threshold st d of
        Inl e \<Rightarrow> Inl e
      | Inr (i, st') \<Rightarrow>
          (case resolve_all distf threshold st' ds of
             Inl e \<Rightarrow> Inl e
           | Inr (is, st'') \<Rightarrow> Inr (i # is, st'')))"

section \<open>Queues (queue.Queue)\<close>

text \<open>A queue with a capacity; \<open>maxsize = 0\<close> means unbounded, as in Python.\<close>

record 'a py_queue =
  maxsize :: nat
  items :: "'a list"

definition q_empty :: "'a py_queue \<Rightarrow> bool" where
  "q_empty q = (items q = [])"

definition q_full :: "'a py_queue \<Rightarrow> bool" where
  "q_full q = (0 < maxsize q \<and> maxsize q \<le> length (items q))"

definition get_nowait :: "'a py_queue \<Rightarrow> py_error + ('a \<times> 'a py_queue)" where
  "get_nowait q = (case items q of [] \<Rightarrow> Inl QueueEmpty | x # xs \<Rightarrow> Inr (x, q\<lparr>items := xs\<rparr>))"

definition put_nowait :: "'a py_queue \<Rightarrow> 'a \<Rightarrow> py_error + 'a py_queue" where
  "put_nowait q x = (if q_full q then Inl QueueFull else Inr (q\<lparr>items := items q @ [x]\<rparr>))"

section \<open>The camera stream (camera_stream.py)\<close>

text \<open>
  \<open>shared\<close> is what every camera stream shares: the stop event, the module-level
  debounce timestamp, the intruder registry file, the log file, the snapshot folder
  and the alerts handed to the mail thread. A log entry is (name, gender, image link
  column); its date and time columns are left out.
\<close>

type_synonym log_entry = "string \<times> string \<times> string"

record ('f, 'd) shared =
  stop_event :: bool
  last_unknown_capture_time :: real
  intruder_db :: "'d intruder_store"
  log_file :: "log_entry list"
  snapshots :: "(string \<times> 'f) list"
  alerts :: "(string \<times> string \<times> string) list"

text \<open>
  The calls on the capture handle and the sleeps of the reader thread, in order.
\<close>

datatype cap_action = Open | Release | Sleep real

text \<open>
  One \<open>CameraStream\<close> object together with the two locals of the processing loop that
  live across iterations (\<open>frame_counter\<close>, and \<open>intruder_id_for_event\<close>, which is
  \<open>None\<close> while the Python variable is unbound). \<open>cap_opened\<close> says whether \<open>self.cap\<close>
  holds an opened capture.
\<close>

record ('f, 'd) camera_stream =
  camera_input :: string
  cap_opened :: bool
  cap_log :: "cap_action list"
  frame_queue :: "'f py_queue"
  internal_frame_queue :: "'f py_queue"
  known_face_encodings :: "'d list"
  known_face_names :: "string list"
  known_face_genders :: "string list"
  recognition_tolerance :: real
  last_logged_times :: "string \<rightharpoonup> real"
  frame_counter :: nat
  intruder_id_for_event :: "string option"

definition init_stream ::
  "string \<Rightarrow> 'd list \<Rightarrow> string list \<Rightarrow> string list \<Rightarrow> 'f py_queue \<Rightarrow> ('f, 'd) camera_stream" where
  "init_stream cam known_encs known_names known_genders fq =
     \<lparr>camera_input = cam, cap_opened = False, cap_log = [],
      frame_queue = fq, internal_frame_queue = \<lparr>maxsize = 1, items = []\<rparr>,
      known_face_encodings = known_encs, known_face_names = known_names,
      known_face_genders = known_genders, recognition_tolerance = RECOGNITION_TOLERANCE,
      last_logged_times = Map.empty, frame_counter = 0, intruder_id_for_event = None\<rparr>"

subsection \<open>The reader thread\<close>

definition cap_open :: "bool \<Rightarrow> ('f, 'd) camera_stream \<Rightarrow> ('f, 'd) camera_stream" where
  "cap_open ok s = s\<lparr>cap_opened := ok, cap_log := cap_log s @ [Open]\<rparr>"

definition cap_release :: "('f, 'd) camera_stream \<Rightarrow> ('f, 'd) camera_stream" where
  "cap_release s = s\<lparr>cap_opened := False, cap_log := cap_log s @ [Release]\<rparr>"

definition time_sleep :: "real \<Rightarrow> ('f, 'd) camera_stream \<Rightarrow> ('f, 'd) camera_stream" where
  "time_sleep t s = s\<lparr>cap_log := cap_log s @ [Sleep t]\<rparr>"

text \<open>
  Lines 90 to 98: drop the waiting frame if there is one, then put the new frame.
  Both exceptions are caught and logged, so the queue stays as the failing call found it.
\<close>

definition reader_enqueue :: "'f py_queue \<Rightarrow> 'f \<Rightarrow> 'f py_queue" where
  "reader_enqueue q frame =
     (case (if \<not> q_empty q then map_sum id snd (get_nowait q) else Inr q) of
        Inl e \<Rightarrow> q
      | Inr q1 \<Rightarrow> (case put_nowait q1 frame of Inl e \<Rightarrow> q1 | Inr q2 \<Rightarrow> q2))"

text \<open>
  What one iteration of the reader loop meets: whether another thread has set the
  shared stop event before the loop test, what \<open>cap.read()\<close> returns (\<open>None\<close> when
  \<open>ret\<close> is false), and whether the capture opens again after a failed read. The
  loop is a recursion over the list of these inputs: it answers \<open>Exited\<close> with the
  state at exit, or \<open>Running\<close> when the inputs end while it is still in the loop. The
  property settings of the capture (\<open>cap.set\<close>) change nothing that is modelled.
\<close>

record 'f reader_input =
  stop_requested :: bool
  read_result :: "'f option"
  reopen_ok :: bool

datatype run_status = Exited | Running

fun reader_iterations ::
  "'f reader_input list \<Rightarrow> ('f, 'd) shared \<Rightarrow> ('f, 'd) camera_stream
     \<Rightarrow> run_status \<times> ('f, 'd) shared \<times> ('f, 'd) camera_stream" where
  "reader_iterations [] w s = (Running, w, s)"
| "reader_iterations (i # rest) w s =
     (let w0 = (if stop_requested i then w\<lparr>stop_event := True\<rparr> else w)
      in if stop_event w0 then (Exited, w0, cap_release s)
         else (case read_result i of
                 None \<Rightarrow>
                   (let s1 = cap_open (reopen_ok i) (time_sleep (1 / 2) (cap_release s))
                    in if \<not> cap_opened s1
                       then (Exited, w0\<lparr>stop_event := True\<rparr>, cap_release s1)
                       else reader_iterations rest w0 s1)
               | Some frame \<Rightarrow>
                   reader_iterations rest w0
                     (time_sleep (1 / 1000)
                        (s\<lparr>internal_frame_queue :=
                             reader_enqueue (internal_frame_queue s) frame\<rparr>))))"

definition run_reader_loop ::
  "bool \<Rightarrow> 'f reader_input list \<Rightarrow> ('f, 'd) shared \<Rightarrow> ('f, 'd) camera_stream
     \<Rightarrow> run_status \<times> ('f, 'd) shared \<times> ('f, 'd) camera_stream" where
  "run_reader_loop open_ok inputs w s =
     (let s1 = cap_open open_ok s
      in if \<not> cap_opened s1 then (Exited, w\<lparr>stop_event := True\<rparr>, s1)
         else reader_iterations inputs w s1)"

subsection \<open>The processing thread: recognising one face\<close>

text \<open>\<^verbatim>\<open>'__' in s\<close> and \<^verbatim>\<open>s.split('__')[0]\<close>.\<close>

fun contains_sep :: "string \<Rightarrow> bool" where
  "contains_sep (a # b # cs) = ((a = CHR ''_'' \<and> b = CHR ''_'') \<or> contains_sep (b # cs))"
| "contains_sep cs = False"

fun split_head :: "string \<Rightarrow> string" where
  "split_head (a # b # cs) =
     (if a = CHR ''_'' \<and> b = CHR ''_'' then [] else a # split_head (b # cs))"
| "split_head cs = cs"

text \<open>
  Lines 196 to 210. The result is the triple \<open>(recognized_name_with_gender,
  recognized_gender_only, recognized_person_name_only)\<close>; indexing a list of names or
  genders that is shorter than the list of encodings raises \<open>IndexError\<close>.
\<close>

definition recognize_known ::
  "('d \<Rightarrow> 'd \<Rightarrow> real) \<Rightarrow> ('f, 'd) camera_stream \<Rightarrow> 'd
     \<Rightarrow> py_error + (string \<times> string \<times> string)" where
  "recognize_known distf s face_encoding =
     (if known_face_encodings s \<noteq> [] then
        (let matches = compare_faces distf (known_face_encodings s) face_encoding
                         (recognition_tolerance s);
             face_distances = face_distance distf (known_face_encodings s) face_encoding
         in if length face_distances > 0 then
              (let best_match_index = argmin face_distances
               in if matches ! best_match_index then
                    (if best_match_index < length (known_face_names s) then
                       (if best_match_index < length (known_face_genders s) then
                          (let recognized_name_with_gender = known_face_names s ! best_match_index
                           in Inr (recognized_name_with_gender,
                                   known_face_genders s ! best_match_index,
                                   if contains_sep recognized_name_with_gender
                                   then split_head recognized_name_with_gender
                                   else recognized_name_with_gender))
                        else Inl IndexError)
                     else Inl IndexError)
                  else Inr (''Unknown'', ''Intruder'', ''Unknown''))
            else Inr (''Unknown'', ''Intruder'', ''Unknown''))
      else Inr (''Unknown'', ''Intruder'', ''Unknown''))"

text \<open>
  The clock readings and formatted time stamps that handling one face uses:
  \<open>time.time()\<close> for the global gate, \<open>datetime.now()\<close> (in seconds) for the
  per-stream gate, and the two \<open>strftime\<close> strings of the snapshot name and the alert.
\<close>

record clock =
  time_time :: real
  datetime_now :: real
  capture_stamp :: string
  alert_stamp :: string

definition write_log_entry :: "string \<Rightarrow> string \<Rightarrow> string option \<Rightarrow> log_entry list \<Rightarrow> log_entry list" where
  "write_log_entry name gender image_link lg =
     lg @ [(name, gender,
            (case image_link of None \<Rightarrow> ''N/A'' | Some l \<Rightarrow> if l = [] then ''N/A'' else l))]"

text \<open>Lines 227 to 232, the body run under the lock: the new timestamp and the flag.\<close>

definition unknown_debounce_gate :: "real \<Rightarrow> real \<Rightarrow> real \<times> bool" where
  "unknown_debounce_gate current_time_epoch last_capture =
     (if current_time_epoch - last_capture \<ge> UNKNOWN_CAPTURE_DEBOUNCE_TIME
      then (current_time_epoch, True)
      else (last_capture, False))"

text \<open>
  Lines 234 to 260. An exception of \<open>match_or_add_intruder\<close> is caught by the handler
  around the four steps, which then skips the other three. Writing the snapshot,
  appending to the log and starting the mail thread are taken to succeed; the path
  separator of the snapshot name is written as a slash.
\<close>

definition full_intruder_event ::
  "('d \<Rightarrow> 'd \<Rightarrow> real) \<Rightarrow> clock \<Rightarrow> 'f \<Rightarrow> 'd \<Rightarrow> ('f, 'd) shared \<Rightarrow> ('f, 'd) camera_stream
     \<Rightarrow> ('f, 'd) shared \<times> ('f, 'd) camera_stream" where
  "full_intruder_event distf ck frame face_encoding w s =
     (case match_or_add_intruder distf RECOGNITION_TOLERANCE (intruder_db w) face_encoding of
        Inl e \<Rightarrow> (w, s)
      | Inr (iid, db') \<Rightarrow>
          (let full_path_for_new_capture =
                 INTRUDERS_FOLDER @ ''/intruder_'' @ capture_stamp ck @ ''.jpg''
           in (w\<lparr>intruder_db := db',
                 snapshots := snapshots w @ [(full_path_for_new_capture, frame)],
                 log_file := write_log_entry iid ''Intruder'' (Some full_path_for_new_capture)
                               (log_file w),
                 alerts := alerts w @ [(full_path_for_new_capture, alert_stamp ck, camera_input s)]\<rparr>,
               s\<lparr>intruder_id_for_event := Some iid\<rparr>)))"

text \<open>Lines 274 to 280.\<close>

definition log_known_face ::
  "clock \<Rightarrow> string \<Rightarrow> string \<Rightarrow> string \<Rightarrow> ('f, 'd) shared \<Rightarrow> ('f, 'd) camera_stream
     \<Rightarrow> ('f, 'd) shared \<times> ('f, 'd) camera_stream" where
  "log_known_face ck recognized_name_with_gender recognized_gender_only
       recognized_person_name_only w s =
     (let current_time_dt = datetime_now ck;
          last_time = last_logged_times s recognized_name_with_gender
      in if (case last_time of None \<Rightarrow> True
             | Some t \<Rightarrow> current_time_dt - t \<ge> KNOWN_FACE_LOG_DEBOUNCE_TIME)
         then (w\<lparr>log_file := write_log_entry recognized_person_name_only
                                recognized_gender_only None (log_file w)\<rparr>,
               s\<lparr>last_logged_times :=
                    (last_logged_times s)(recognized_name_with_gender \<mapsto> current_time_dt)\<rparr>)
         else (w, s))"

text \<open>
  The body of the loop over the encodings of one frame (lines 195 to 280). The result
  is the label appended to \<open>faces_to_display_on_frame\<close>, or the exception that leaves
  the loop, with the state as the body left it.
\<close>

definition process_face ::
  "('d \<Rightarrow> 'd \<Rightarrow> real) \<Rightarrow> clock \<Rightarrow> 'f \<Rightarrow> 'd \<Rightarrow> ('f, 'd) shared \<Rightarrow> ('f, 'd) camera_stream
     \<Rightarrow> (py_error + string) \<times> ('f, 'd) shared \<times> ('f, 'd) camera_stream" where
  "process_face distf ck frame face_encoding w s =
     (case recognize_known distf s face_encoding of
        Inl e \<Rightarrow> (Inl e, w, s)
      | Inr (recognized_name_with_gender, recognized_gender_only, recognized_person_name_only) \<Rightarrow>
          if recognized_name_with_gender = ''Unknown'' then
            (let (last', trigger_full_intruder_event) =
                   unknown_debounce_gate (time_time ck) (last_unknown_capture_time w);
                 w1 = w\<lparr>last_unknown_capture_time := last'\<rparr>;
                 (w2, s2) = (if trigger_full_intruder_event
                             then full_intruder_event distf ck frame face_encoding w1 s
                             else (w1, s))
             in (case intruder_id_for_event s2 of
                   None \<Rightarrow> (Inl UnboundLocalError, w2, s2)
                 | Some iid \<Rightarrow> (Inr iid, w2, s2)))
          else
            (let (w2, s2) = log_known_face ck recognized_name_with_gender recognized_gender_only
                              recognized_person_name_only w s
             in (Inr recognized_person_name_only, w2, s2)))"

text \<open>The loop itself; \<open>cks i\<close> is the clock as the \<open>i\<close>-th face of the frame reads it.\<close>

fun process_faces ::
  "('d \<Rightarrow> 'd \<Rightarrow> real) \<Rightarrow> (nat \<Rightarrow> clock) \<Rightarrow> 'f \<Rightarrow> nat \<Rightarrow> 'd list \<Rightarrow> ('f, 'd) shared
     \<Rightarrow> ('f, 'd) camera_stream
     \<Rightarrow> (py_error + string list) \<times> ('f, 'd) shared \<times> ('f, 'd) camera_stream" where
  "process_faces distf cks frame i [] w s = (Inr [], w, s)"
| "process_faces distf cks frame i (e # es) w s =
     (case process_face distf (cks i) frame e w s of
        (Inl err, w', s') \<Rightarrow> (Inl err, w', s')
      | (Inr label, w', s') \<Rightarrow>
          (case process_faces distf cks frame (Suc i) es w' s' of
             (Inl err, w'', s'') \<Rightarrow> (Inl err, w'', s'')
           | (Inr labels, w'', s'') \<Rightarrow> (Inr (label # labels), w'', s'')))"

subsection \<open>The processing thread: one frame\<close>

text \<open>
  The image capabilities are opaque: shrinking and converting the frame, the test
  that the small frame is unusable, detection, encoding, and the two ways of drawing.
  A box is \<open>(top, right, bottom, left)\<close>.
\<close>

type_synonym box = "int \<times> int \<times> int \<times> int"

record ('f, 'd) vision =
  small_rgb :: "'f \<Rightarrow> 'f"
  frame_invalid :: "'f \<Rightarrow> bool"
  face_locations :: "'f \<Rightarrow> py_error + box list"
  face_encodings :: "'f \<Rightarrow> box list \<Rightarrow> py_error + 'd list"
  descriptor_distance :: "'d \<Rightarrow> 'd \<Rightarrow> real"
  draw_faces :: "'f \<Rightarrow> (box \<times> string) list \<Rightarrow> 'f"
  draw_banner :: "'f \<Rightarrow> 'f"

definition MAX_REASONABLE_FACES :: nat where
  "MAX_REASONABLE_FACES = 10"

definition min_face_size :: int where
  "min_face_size = 20"

definition process_this_frame :: "nat \<Rightarrow> bool" where
  "process_this_frame counter = (counter mod 4 = 0)"

definition valid_face_location :: "box \<Rightarrow> bool" where
  "valid_face_location b =
     (case b of (face_top, face_right, face_bottom, face_left) \<Rightarrow>
        face_bottom - face_top \<ge> min_face_size \<and> face_right - face_left \<ge> min_face_size)"

text \<open>\<^verbatim>\<open>self.frame_queue.put_nowait(drawn_frame)\<close> with \<open>queue.Full\<close> caught: the frame
  is dropped when the display queue is full.\<close>

definition publish :: "('f, 'd) camera_stream \<Rightarrow> 'f \<Rightarrow> ('f, 'd) camera_stream" where
  "publish s drawn_frame =
     (case put_nowait (frame_queue s) drawn_frame of
        Inl e \<Rightarrow> s
      | Inr q \<Rightarrow> s\<lparr>frame_queue := q\<rparr>)"

text \<open>
  How an iteration of the processing loop ends: it goes on to the next one, it leaves
  the loop by \<open>break\<close>, or an exception nobody catches ends the thread.
\<close>

datatype loop_ctl = Continue | Break | Crash py_error

text \<open>
  Lines 136 to 314, the iteration for a frame that was taken from the internal queue.
  \<open>drawn_frame\<close> is a copy of the frame, so before any drawing it is the frame itself.
  The stop event tested after detection is the flag as the iteration found it:
  other threads act between iterations.
\<close>

definition run_processing_iteration ::
  "('f, 'd) vision \<Rightarrow> (nat \<Rightarrow> clock) \<Rightarrow> 'f \<Rightarrow> ('f, 'd) shared \<Rightarrow> ('f, 'd) camera_stream
     \<Rightarrow> loop_ctl \<times> ('f, 'd) shared \<times> ('f, 'd) camera_stream" where
  "run_processing_iteration vis cks frame w s =
     (let s1 = s\<lparr>frame_counter := frame_counter s + 1\<rparr>;
          drawn_frame = frame
      in if process_this_frame (frame_counter s1) then
           (let rgb_small_frame = small_rgb vis frame
            in if frame_invalid vis rgb_small_frame then (Continue, w, publish s1 drawn_frame)
               else
                 (case face_locations vis rgb_small_frame of
                    Inl e \<Rightarrow> (Break, w\<lparr>stop_event := True\<rparr>, publish s1 drawn_frame)
                  | Inr all_locations \<Rightarrow>
                      if length all_locations > MAX_REASONABLE_FACES then (Continue, w, s1)
                      else
                        (let valid_face_locations = filter valid_face_location all_locations
                         in case face_encodings vis rgb_small_frame valid_face_locations of
                              Inl e \<Rightarrow> (Break, w\<lparr>stop_event := True\<rparr>, publish s1 drawn_frame)
                            | Inr encs \<Rightarrow>
                                if stop_event w then (Break, w, s1)
                                else
                                  (case process_faces (descriptor_distance vis) cks frame 0
                                          encs w s1 of
                                     (Inl err, w', s') \<Rightarrow> (Crash err, w', s')
                                   | (Inr faces_to_display_on_frame, w', s') \<Rightarrow>
                                       (Continue, w',
                                        publish s'
                                          (if length valid_face_locations > 0
                                           then draw_faces vis drawn_frame
                                                  (zip valid_face_locations
                                                     faces_to_display_on_frame)
                                           else draw_banner vis drawn_frame))))))
         else (Continue, w, publish s1 drawn_frame))"

subsection \<open>Several camera streams\<close>

text \<open>
  The pipeline: the shared state and one stream per camera input. \<open>process_face_on\<close>
  is \<open>process_face\<close> run by the processing thread of camera \<open>cam\<close>.
\<close>

record ('f, 'd) pipeline =
  shared_state :: "('f, 'd) shared"
  streams :: "string \<Rightarrow> ('f, 'd) camera_stream"

definition process_face_on ::
  "('d \<Rightarrow> 'd \<Rightarrow> real) \<Rightarrow> clock \<Rightarrow> 'f \<Rightarrow> 'd \<Rightarrow> string \<Rightarrow> ('f, 'd) pipeline
     \<Rightarrow> (py_error + string) \<times> ('f, 'd) pipeline" where
  "process_face_on distf ck frame face_encoding cam p =
     (case process_face distf ck frame face_encoding (shared_state p) (streams p cam) of
        (r, w', s') \<Rightarrow> (r, p\<lparr>shared_state := w', streams := (streams p)(cam := s')\<rparr>))"

subsection \<open>Concrete scenarios\<close>

text \<open>
  Values for concrete runs: frames are numbers, descriptors are reals compared by
  their absolute difference. \<open>blind_vision\<close> finds no face and never fails;
  \<open>crowd_vision\<close> reports eleven boxes on every frame. \<open>clock_at t\<close> is a clock
  reading at second \<open>t\<close>, and \<open>clocks_at t\<close> gives it to every face of a frame.
  \<open>fresh_shared\<close> is the shared state as the module sets it up
  (timestamp 0), with no registry file yet; \<open>fresh_stream\<close> is a new stream with an
  empty catalog whose display queue is the one-slot queue given.
\<close>

definition abs_distance :: "real \<Rightarrow> real \<Rightarrow> real" where
  "abs_distance a b = \<bar>a - b\<bar>"

definition blind_vision :: "(nat, real) vision" where
  "blind_vision =
     \<lparr>small_rgb = id, frame_invalid = (\<lambda>f. False), face_locations = (\<lambda>f. Inr []),
      face_encodings = (\<lambda>f bs. Inr []), descriptor_distance = abs_distance,
      draw_faces = (\<lambda>f ls. f + 1000), draw_banner = (\<lambda>f. f + 2000)\<rparr>"

definition crowd_vision :: "(nat, real) vision" where
  "crowd_vision = blind_vision\<lparr>face_locations := (\<lambda>f. Inr (replicate 11 (0, 40, 40, 0)))\<rparr>"

definition clock_at :: "real \<Rightarrow> clock" where
  "clock_at t = \<lparr>time_time = t, datetime_now = t, capture_stamp = ''t'', alert_stamp = ''t''\<rparr>"

definition clocks_at :: "real \<Rightarrow> nat \<Rightarrow> clock" where
  "clocks_at t i = clock_at t"

definition fresh_shared :: "(nat, real) shared" where
  "fresh_shared =
     \<lparr>stop_event = False, last_unknown_capture_time = 0,
      intruder_db = \<lparr>db_file = None, db_writable = True, db_saves = 0\<rparr>,
      log_file = [], snapshots = [], alerts = []\<rparr>"

definition fresh_stream :: "nat list \<Rightarrow> (nat, real) camera_stream" where
  "fresh_stream waiting = init_stream ''0'' [] [] [] \<lparr>maxsize = 1, items = waiting\<rparr>"

text \<open>
  \<open>fresh_pipeline\<close> is the pipeline at start: the fresh shared state and a new stream
  with an empty catalog for every camera. \<open>resolve_at t cam\<close> is the processing thread
  of camera \<open>cam\<close> handling, at second \<open>t\<close>, a face with descriptor 0 seen on frame 1;
  with the empty catalog the face is unknown. \<open>alice_pipeline\<close> is the pipeline at
  start when the catalog holds one person, Alice, with descriptor 0.
\<close>

definition fresh_pipeline :: "(nat, real) pipeline" where
  "fresh_pipeline =
     \<lparr>shared_state = fresh_shared,
      streams = (\<lambda>cam. init_stream cam [] [] [] \<lparr>maxsize = 1, items = []\<rparr>)\<rparr>"

definition alice_pipeline :: "(nat, real) pipeline" where
  "alice_pipeline =
     \<lparr>shared_state = fresh_shared,
      streams = (\<lambda>cam. init_stream cam [0] [''Alice__female''] [''female'']
                         \<lparr>maxsize = 1, items = []\<rparr>)\<rparr>"

definition resolve_at :: "real \<Rightarrow> string \<Rightarrow> (nat, real) pipeline \<Rightarrow> (nat, real) pipeline" where
  "resolve_at t cam p = snd (process_face_on abs_distance (clock_at t) 1 0 cam p)"

section \<open>Properties of the match engine\<close>

lemma argmin_less: "xs \<noteq> [] \<Longrightarrow> argmin xs < length xs"
proof (induction xs)
  case Nil
  then show ?case by simp
next
  case (Cons x xs)
  show ?case
  proof (cases "\<forall>y \<in> set xs. x \<le> y")
    case True
    then show ?thesis by simp
  next
    case False
    then have "xs \<noteq> []" by auto
    with Cons.IH False show ?thesis by simp
  qed
qed

lemma argmin_least: "y \<in> set xs \<Longrightarrow> xs ! argmin xs \<le> y"
proof (induction xs arbitrary: y)
  case Nil
  then show ?case by simp
next
  case (Cons x xs)
  show ?case
  proof (cases "\<forall>z \<in> set xs. x \<le> z")
    case True
    with Cons.prems show ?thesis by auto
  next
    case False
    then obtain z where z: "z \<in> set xs" "z < x" by force
    have "xs ! argmin xs \<le> z" using Cons.IH z(1) by blast
    moreover have "y \<in> set xs \<Longrightarrow> xs ! argmin xs \<le> y" using Cons.IH by blast
    ultimately show ?thesis using Cons.prems z(2) False by auto
  qed
qed

lemma argmin_first: "j < argmin xs \<Longrightarrow> xs ! argmin xs < xs ! j"
proof (induction xs arbitrary: j)
  case Nil
  then show ?case by simp
next
  case (Cons x xs)
  show ?case
  proof (cases "\<forall>z \<in> set xs. x \<le> z")
    case True
    with Cons.prems show ?thesis by simp
  next
    case False
    then obtain z where z: "z \<in> set xs" "z < x" by force
    have le: "xs ! argmin xs \<le> z" using argmin_least z(1) by blast
    show ?thesis
    proof (cases j)
      case 0
      have "argmin (x # xs) = Suc (argmin xs)" using False by simp
      moreover have "xs ! argmin xs < x" using le z(2) by linarith
      ultimately show ?thesis using 0 by simp
    next
      case (Suc k)
      have eq: "argmin (x # xs) = Suc (argmin xs)" using False by simp
      with Cons.prems Suc have "k < argmin xs" by simp
      then have "xs ! argmin xs < xs ! k" using Cons.IH by blast
      with Suc eq show ?thesis by simp
    qed
  qed
qed

section \<open>Properties of the intruder registry\<close>

lemma compare_faces_hit:
  "True \<in> set (compare_faces distf encs d thr) \<longleftrightarrow> (\<exists>e \<in> set encs. distf e d \<le> thr)"
  by (auto simp: compare_faces_def face_distance_def)

lemma face_distance_nth:
  "i < length encs \<Longrightarrow> face_distance distf encs d ! i = distf (encs ! i) d"
  by (simp add: face_distance_def)

lemma argmin_face_distance_less:
  "encs \<noteq> [] \<Longrightarrow> argmin (face_distance distf encs d) < length encs"
  using argmin_less [of "face_distance distf encs d"] by (simp add: face_distance_def)

lemma argmin_face_distance_least:
  assumes "e \<in> set encs"
  shows "distf (encs ! argmin (face_distance distf encs d)) d \<le> distf e d"
proof -
  from assms have ne: "encs \<noteq> []" by auto
  have "distf e d \<in> set (face_distance distf encs d)"
    using assms by (simp add: face_distance_def)
  then have "face_distance distf encs d ! argmin (face_distance distf encs d) \<le> distf e d"
    by (rule argmin_least)
  with ne show ?thesis
    by (simp add: face_distance_nth argmin_face_distance_less)
qed

lemma match_or_add_hit:
  assumes "db_file st = Some (encs, ids)" and "length ids = length encs"
    and "\<exists>e \<in> set encs. distf e d \<le> thr"
  shows "match_or_add_intruder distf thr st d
           = Inr (ids ! argmin (face_distance distf encs d), st)"
proof -
  from assms(3) have ne: "encs \<noteq> []" by auto
  have lt: "argmin (face_distance distf encs d) < length ids"
    using ne assms(2) by (simp add: argmin_face_distance_less)
  show ?thesis
    using assms(1) assms(3) ne lt
    by (simp add: match_or_add_intruder_def load_intruder_db_def compare_faces_hit)
qed

lemma match_or_add_miss:
  assumes "load_intruder_db st = (encs, ids)" and "\<forall>e \<in> set encs. thr < distf e d"
    and "db_writable st"
  shows "match_or_add_intruder distf thr st d
           = Inr (intruder_id (length ids + 1),
                  st\<lparr>db_file := Some (encs @ [d], ids @ [intruder_id (length ids + 1)]),
                     db_saves := Suc (db_saves st)\<rparr>)"
proof -
  have "\<not> (\<exists>e \<in> set encs. distf e d \<le> thr)" using assms(2) by force
  then show ?thesis
    using assms(1) assms(3)
    by (simp add: match_or_add_intruder_def compare_faces_hit save_intruder_db_def Let_def)
qed

text \<open>
  Claim C10. When the registry file holds the records \<open>R\<close> and at least one of them is
  within the threshold of the descriptor, \<open>match_or_add_intruder\<close> returns the id of
  the record at minimum distance, and the store it leaves is the store it found:
  the file content, and the count of saves, are the same, so nothing was appended
  and nothing was written. The registry is therefore written on the no-match branch
  only.
\<close>

theorem match_leaves_registry_unchanged:
  assumes "db_file st = Some (map fst R, map snd R)"
    and "\<exists>r \<in> set R. distf (fst r) d \<le> threshold"
  shows "match_or_add_intruder distf threshold st d
           = Inr (snd (R ! argmin (map (\<lambda>r. distf (fst r) d) R)), st)
         \<and> argmin (map (\<lambda>r. distf (fst r) d) R) < length R
         \<and> distf (fst (R ! argmin (map (\<lambda>r. distf (fst r) d) R))) d \<le> threshold
         \<and> (\<forall>r \<in> set R. distf (fst (R ! argmin (map (\<lambda>r. distf (fst r) d) R))) d
                             \<le> distf (fst r) d)"
proof -
  let ?encs = "map fst R"
  let ?i = "argmin (map (\<lambda>r. distf (fst r) d) R)"
  have fd: "face_distance distf ?encs d = map (\<lambda>r. distf (fst r) d) R"
    by (simp add: face_distance_def comp_def)
  from assms(2) have ne: "R \<noteq> []" by auto
  have hit: "\<exists>e \<in> set ?encs. distf e d \<le> threshold" using assms(2) by auto
  have lt: "?i < length R"
    using argmin_face_distance_less [of ?encs distf d] ne by (simp add: fd)
  have least: "\<forall>r \<in> set R. distf (fst (R ! ?i)) d \<le> distf (fst r) d"
  proof
    fix r assume "r \<in> set R"
    then have "fst r \<in> set ?encs" by simp
    then have "distf (?encs ! argmin (face_distance distf ?encs d)) d \<le> distf (fst r) d"
      by (rule argmin_face_distance_least)
    then show "distf (fst (R ! ?i)) d \<le> distf (fst r) d" using lt by (simp add: fd)
  qed
  from assms(2) obtain r where r: "r \<in> set R" "distf (fst r) d \<le> threshold" by blast
  have within: "distf (fst (R ! ?i)) d \<le> threshold" using least r by force
  have "match_or_add_intruder distf threshold st d
          = Inr (map snd R ! argmin (face_distance distf ?encs d), st)"
    using assms(1) hit by (intro match_or_add_hit) simp_all
  then have res: "match_or_add_intruder distf threshold st d = Inr (snd (R ! ?i), st)"
    using lt by (simp add: fd)
  from res lt within least show ?thesis by blast
qed

theorem match_leaves_registry_unchanged_witness:
  "(\<exists>r \<in> set [(0 :: real, ''Intruder_1''), (10, ''Intruder_2'')]. \<bar>fst r - 9\<bar> \<le> 6)
   \<and> match_or_add_intruder (\<lambda>a b. \<bar>a - b\<bar>) 6
        \<lparr>db_file = Some ([0, 10], [''Intruder_1'', ''Intruder_2'']),
         db_writable = True, db_saves = 2\<rparr> 9
      = Inr (''Intruder_2'',
             \<lparr>db_file = Some ([0, 10], [''Intruder_1'', ''Intruder_2'']),
              db_writable = True, db_saves = 2\<rparr>)"
  using match_leaves_registry_unchanged
    [of "\<lparr>db_file = Some ([0, 10], [''Intruder_1'', ''Intruder_2'']),
          db_writable = True, db_saves = 2\<rparr>"
        "[(0, ''Intruder_1''), (10, ''Intruder_2'')]" "\<lambda>a b. \<bar>a - b\<bar>" 9 6]
  by simp

section \<open>The match engine against the specification\<close>

lemma spec_match_None:
  "spec_match distf tol R d = None \<longleftrightarrow> (R = [] \<or> (\<forall>r \<in> set R. tol < distf (fst r) d))"
proof (cases "R = []")
  case True
  then show ?thesis by (simp add: spec_match_def)
next
  case False
  let ?encs = "map fst R"
  let ?i = "argmin (map (\<lambda>r. distf (fst r) d) R)"
  have fd: "face_distance distf ?encs d = map (\<lambda>r. distf (fst r) d) R"
    by (simp add: face_distance_def comp_def)
  have lt: "?i < length R"
    using argmin_face_distance_less [of ?encs distf d] False by (simp add: fd)
  have least: "distf (fst (R ! ?i)) d \<le> distf (fst r) d" if "r \<in> set R" for r
  proof -
    from that have "fst r \<in> set ?encs" by simp
    then have "distf (?encs ! argmin (face_distance distf ?encs d)) d \<le> distf (fst r) d"
      by (rule argmin_face_distance_least)
    then show ?thesis using lt by (simp add: fd)
  qed
  have mem: "R ! ?i \<in> set R" using lt by simp
  have "(\<not> distf (fst (R ! ?i)) d \<le> tol) \<longleftrightarrow> (\<forall>r \<in> set R. tol < distf (fst r) d)"
  proof
    assume a: "\<not> distf (fst (R ! ?i)) d \<le> tol"
    show "\<forall>r \<in> set R. tol < distf (fst r) d"
    proof
      fix r assume "r \<in> set R"
      from least [OF this] a show "tol < distf (fst r) d" by linarith
    qed
  next
    assume "\<forall>r \<in> set R. tol < distf (fst r) d"
    with mem have "tol < distf (fst (R ! ?i)) d" by blast
    then show "\<not> distf (fst (R ! ?i)) d \<le> tol" by linarith
  qed
  moreover have "spec_match distf tol R d
      = (if distf (fst (R ! ?i)) d \<le> tol then Some (snd (R ! ?i)) else None)"
    using False by (simp add: spec_match_def Let_def)
  ultimately show ?thesis using False
    by (cases "distf (fst (R ! ?i)) d \<le> tol") simp_all
qed

lemma spec_match_Some:
  assumes "spec_match distf tol R d = Some l"
  shows "\<exists>i < length R. l = snd (R ! i) \<and> distf (fst (R ! i)) d \<le> tol
           \<and> (\<forall>r \<in> set R. distf (fst (R ! i)) d \<le> distf (fst r) d)
           \<and> (\<forall>j < i. distf (fst (R ! i)) d < distf (fst (R ! j)) d)"
proof -
  let ?ds = "map (\<lambda>r. distf (fst r) d) R"
  let ?i = "argmin ?ds"
  from assms have ne: "R \<noteq> []" by (auto simp: spec_match_def)
  with assms have within: "distf (fst (R ! ?i)) d \<le> tol" and l: "l = snd (R ! ?i)"
    by (auto simp: spec_match_def Let_def split: if_splits)
  have lt: "?i < length R" using argmin_less [of ?ds] ne by simp
  have least: "\<forall>r \<in> set R. distf (fst (R ! ?i)) d \<le> distf (fst r) d"
  proof
    fix r assume "r \<in> set R"
    then have "distf (fst r) d \<in> set ?ds" by force
    then have "?ds ! ?i \<le> distf (fst r) d" by (rule argmin_least)
    then show "distf (fst (R ! ?i)) d \<le> distf (fst r) d" using lt by simp
  qed
  have first: "\<forall>j < ?i. distf (fst (R ! ?i)) d < distf (fst (R ! j)) d"
  proof (intro allI impI)
    fix j assume j: "j < ?i"
    then have "?ds ! ?i < ?ds ! j" by (rule argmin_first)
    then show "distf (fst (R ! ?i)) d < distf (fst (R ! j)) d" using lt j by simp
  qed
  from lt l within least first show ?thesis by blast
qed

lemma recognize_known_spec:
  assumes "known_face_encodings s = map fst K"
    and "known_face_names s = map (\<lambda>k. fst (snd k)) K"
    and "known_face_genders s = map (\<lambda>k. snd (snd k)) K"
  shows "recognize_known distf s d =
           (case spec_match distf (recognition_tolerance s) K d of
              None \<Rightarrow> Inr (''Unknown'', ''Intruder'', ''Unknown'')
            | Some (name, gender) \<Rightarrow>
                Inr (name, gender, if contains_sep name then split_head name else name))"
proof (cases "K = []")
  case True
  with assms show ?thesis by (simp add: recognize_known_def spec_match_def)
next
  case False
  let ?i = "argmin (map (\<lambda>r. distf (fst r) d) K)"
  have fd: "face_distance distf (map fst K) d = map (\<lambda>r. distf (fst r) d) K"
    by (simp add: face_distance_def comp_def)
  have lt: "?i < length K"
    using argmin_less [of "map (\<lambda>r. distf (fst r) d) K"] False by simp
  have m: "compare_faces distf (map fst K) d (recognition_tolerance s) ! ?i
             = (distf (fst (K ! ?i)) d \<le> recognition_tolerance s)"
    using lt by (simp add: compare_faces_def fd)
  show ?thesis
    using assms False lt m
    by (simp add: recognize_known_def spec_match_def Let_def fd split: prod.splits)
qed

lemma match_or_add_spec:
  assumes "db_file st = Some (map fst R, map snd R)"
  shows "match_or_add_intruder distf thr st d =
           (case spec_match distf thr R d of
              Some i \<Rightarrow> Inr (i, st)
            | None \<Rightarrow>
                (case save_intruder_db (map fst R @ [d])
                        (map snd R @ [intruder_id (length R + 1)]) st of
                   Inl e \<Rightarrow> Inl e
                 | Inr st' \<Rightarrow> Inr (intruder_id (length R + 1), st')))"
proof (cases "\<exists>r \<in> set R. distf (fst r) d \<le> thr")
  case True
  then have ne: "R \<noteq> []" by auto
  have fd: "face_distance distf (map fst R) d = map (\<lambda>r. distf (fst r) d) R"
    by (simp add: face_distance_def comp_def)
  have lt: "argmin (map (\<lambda>r. distf (fst r) d) R) < length R"
    using argmin_less [of "map (\<lambda>r. distf (fst r) d) R"] ne by simp
  from True have "spec_match distf thr R d \<noteq> None"
    by (simp add: spec_match_None) force
  then have sm: "spec_match distf thr R d = Some (snd (R ! argmin (map (\<lambda>r. distf (fst r) d) R)))"
    using ne by (auto simp: spec_match_def Let_def split: if_splits)
  from True have hit: "\<exists>e \<in> set (map fst R). distf e d \<le> thr" by auto
  have "match_or_add_intruder distf thr st d
          = Inr (map snd R ! argmin (face_distance distf (map fst R) d), st)"
    using assms hit by (intro match_or_add_hit) simp_all
  with sm lt show ?thesis by (simp add: fd)
next
  case False
  then have none: "spec_match distf thr R d = None"
    by (simp add: spec_match_None) force
  from False have nohit: "\<not> (\<exists>e \<in> set (map fst R). distf e d \<le> thr)" by auto
  show ?thesis
    using assms nohit none
    by (simp add: match_or_add_intruder_def load_intruder_db_def compare_faces_hit Let_def
          split: sum.splits)
qed

text \<open>
  Claim C1. \<open>spec_match\<close> is the match operation as the specification words it. For
  every descriptor and every reference list it answers "no match" exactly when the
  list is empty or every entry is farther than the tolerance; when it answers with a
  label, that label belongs to an entry whose distance is within the tolerance and
  is the minimum over all entries (the first such entry). Both uses in the code
  compute this operation: the known-catalog match of the processing loop, whose "no
  match" is the default triple \<open>(Unknown, Intruder, Unknown)\<close>, and the registry match
  of \<open>match_or_add_intruder\<close>, whose "no match" is the branch that adds a new record.
\<close>

theorem face_match_nearest_within_tolerance:
  assumes "known_face_encodings s = map fst K"
    and "known_face_names s = map (\<lambda>k. fst (snd k)) K"
    and "known_face_genders s = map (\<lambda>k. snd (snd k)) K"
    and "db_file st = Some (map fst R, map snd R)"
  shows "(spec_match distf tol R d = None
            \<longleftrightarrow> (R = [] \<or> (\<forall>r \<in> set R. tol < distf (fst r) d)))
       \<and> (\<forall>l. spec_match distf tol R d = Some l \<longrightarrow>
            (\<exists>i < length R. l = snd (R ! i) \<and> distf (fst (R ! i)) d \<le> tol
               \<and> (\<forall>r \<in> set R. distf (fst (R ! i)) d \<le> distf (fst r) d)))
       \<and> recognize_known distf s d =
           (case spec_match distf (recognition_tolerance s) K d of
              None \<Rightarrow> Inr (''Unknown'', ''Intruder'', ''Unknown'')
            | Some (name, gender) \<Rightarrow>
                Inr (name, gender, if contains_sep name then split_head name else name))
       \<and> match_or_add_intruder distf tol st d =
           (case spec_match distf tol R d of
              Some i \<Rightarrow> Inr (i, st)
            | None \<Rightarrow>
                (case save_intruder_db (map fst R @ [d])
                        (map snd R @ [intruder_id (length R + 1)]) st of
                   Inl e \<Rightarrow> Inl e
                 | Inr st' \<Rightarrow> Inr (intruder_id (length R + 1), st')))"
proof -
  have a: "spec_match distf tol R d = None
             \<longleftrightarrow> (R = [] \<or> (\<forall>r \<in> set R. tol < distf (fst r) d))"
    by (rule spec_match_None)
  have b: "\<forall>l. spec_match distf tol R d = Some l \<longrightarrow>
            (\<exists>i < length R. l = snd (R ! i) \<and> distf (fst (R ! i)) d \<le> tol
               \<and> (\<forall>r \<in> set R. distf (fst (R ! i)) d \<le> distf (fst r) d))"
    using spec_match_Some [of distf tol R d] by blast
  note c = recognize_known_spec [OF assms(1-3), of distf d]
  note e = match_or_add_spec [OF assms(4), of distf tol d]
  from a b c e show ?thesis by blast
qed
theorem face_match_nearest_within_tolerance_witness:
  "recognize_known (\<lambda>a b. \<bar>a - b\<bar>)
     (init_stream ''0'' [0] [''Alice__female''] [''female''] \<lparr>maxsize = 1, items = []\<rparr>
        :: (nat, real) camera_stream) (4 / 10)
     = Inr (''Alice__female'', ''female'', ''Alice'')
   \<and> recognize_known (\<lambda>a b. \<bar>a - b\<bar>)
     (init_stream ''0'' [0] [''Alice__female''] [''female''] \<lparr>maxsize = 1, items = []\<rparr>
        :: (nat, real) camera_stream) (9 / 10)
     = Inr (''Unknown'', ''Intruder'', ''Unknown'')
   \<and> match_or_add_intruder (\<lambda>a b. \<bar>a - b\<bar>) (6 / 10)
        \<lparr>db_file = Some ([0], [''Intruder_1'']), db_writable = True, db_saves = 1\<rparr> (4 / 10)
      = Inr (''Intruder_1'',
             \<lparr>db_file = Some ([0], [''Intruder_1'']), db_writable = True, db_saves = 1\<rparr>)"
  using face_match_nearest_within_tolerance
    [of "init_stream ''0'' [0] [''Alice__female''] [''female''] \<lparr>maxsize = 1, items = []\<rparr>
           :: (nat, real) camera_stream"
        "[(0, ''Alice__female'', ''female'')]"
        "\<lparr>db_file = Some ([0], [''Intruder_1'']), db_writable = True, db_saves = 1\<rparr>"
        "[(0, ''Intruder_1'')]" "\<lambda>a b. \<bar>a - b\<bar>" "6 / 10" "4 / 10"]
    face_match_nearest_within_tolerance
    [of "init_stream ''0'' [0] [''Alice__female''] [''female''] \<lparr>maxsize = 1, items = []\<rparr>
           :: (nat, real) camera_stream"
        "[(0, ''Alice__female'', ''female'')]"
        "\<lparr>db_file = Some ([0], [''Intruder_1'']), db_writable = True, db_saves = 1\<rparr>"
        "[(0, ''Intruder_1'')]" "\<lambda>a b. \<bar>a - b\<bar>" "6 / 10" "9 / 10"]
  by (simp add: init_stream_def RECOGNITION_TOLERANCE_def spec_match_def)

section \<open>Sequential identity ids\<close>

lemma digit_char_code: "a < 10 \<Longrightarrow> (of_char (digit_char a) :: nat) = 48 + a"
proof -
  assume "a < 10"
  then have "a \<in> {0, 1, 2, 3, 4, 5, 6, 7, 8, 9}" by auto
  then show ?thesis
    by (elim insertE emptyE) (simp_all add: digit_char_def)
qed

lemma digit_char_inj: "a < 10 \<Longrightarrow> b < 10 \<Longrightarrow> digit_char a = digit_char b \<Longrightarrow> a = b"
proof -
  assume a: "a < 10" and b: "b < 10" and eq: "digit_char a = digit_char b"
  from eq have "(of_char (digit_char a) :: nat) = of_char (digit_char b)" by simp
  with a b show "a = b" by (simp add: digit_char_code)
qed

lemma str_nat_nonempty: "str_nat n \<noteq> []"
  by (subst str_nat.simps) simp

lemma str_nat_inj: "str_nat n = str_nat m \<Longrightarrow> n = m"
proof (induction n arbitrary: m rule: less_induct)
  case (less n)
  show ?case
  proof (cases "n < 10")
    case n: True
    show ?thesis
    proof (cases "m < 10")
      case True
      from less.prems have "digit_char n = digit_char m"
        using n True by (simp add: str_nat.simps [of n] str_nat.simps [of m])
      with n True show ?thesis by (rule digit_char_inj)
    next
      case False
      from less.prems have "[digit_char n] = str_nat (m div 10) @ [digit_char (m mod 10)]"
        using n False by (simp add: str_nat.simps [of n] str_nat.simps [of m])
      then have "str_nat (m div 10) = []" by simp
      then show ?thesis using str_nat_nonempty by blast
    qed
  next
    case n: False
    show ?thesis
    proof (cases "m < 10")
      case True
      from less.prems have "str_nat (n div 10) @ [digit_char (n mod 10)] = [digit_char m]"
        using n True by (simp add: str_nat.simps [of n] str_nat.simps [of m])
      then have "str_nat (n div 10) = []" by simp
      then show ?thesis using str_nat_nonempty by blast
    next
      case False
      from less.prems
      have "str_nat (n div 10) @ [digit_char (n mod 10)]
              = str_nat (m div 10) @ [digit_char (m mod 10)]"
        using n False by (simp add: str_nat.simps [of n] str_nat.simps [of m])
      then have hd: "str_nat (n div 10) = str_nat (m div 10)"
        and dg: "digit_char (n mod 10) = digit_char (m mod 10)" by simp_all
      have "n div 10 < n" using n by simp
      then have q: "n div 10 = m div 10" using hd by (rule less.IH)
      have r: "n mod 10 = m mod 10" using dg by (intro digit_char_inj) simp_all
      have "n = 10 * (n div 10) + n mod 10" by simp
      also have "\<dots> = 10 * (m div 10) + m mod 10" using q r by simp
      also have "\<dots> = m" by simp
      finally show ?thesis .
    qed
  qed
qed

lemma intruder_id_inj: "intruder_id n = intruder_id m \<Longrightarrow> n = m"
  by (simp add: intruder_id_def str_nat_inj)

lemma upt_shift: "[1..<Suc (Suc n)] = 1 # map Suc [1..<Suc n]"
proof -
  have "[1..<Suc (Suc n)] = 1 # [Suc 1..<Suc (Suc n)]" by (simp add: upt_conv_Cons)
  also have "[Suc 1..<Suc (Suc n)] = map Suc [1..<Suc n]" by (simp only: map_Suc_upt)
  finally show ?thesis .
qed

lemma resolve_all_novel:
  assumes "load_intruder_db st = (encs, ids)" and "db_writable st"
    and "\<forall>j < length ds. (\<forall>e \<in> set encs. thr < distf e (ds ! j))
                          \<and> (\<forall>i < j. thr < distf (ds ! i) (ds ! j))"
  shows "resolve_all distf thr st ds
           = Inr (map (\<lambda>k. intruder_id (length ids + k)) [1..<Suc (length ds)],
                  if ds = [] then st
                  else st\<lparr>db_file := Some (encs @ ds,
                         ids @ map (\<lambda>k. intruder_id (length ids + k)) [1..<Suc (length ds)]),
                     db_saves := db_saves st + length ds\<rparr>)"
  using assms
proof (induction ds arbitrary: st encs ids)
  case Nil
  then show ?case by simp
next
  case (Cons d ds)
  let ?id = "intruder_id (length ids + 1)"
  let ?st1 = "st\<lparr>db_file := Some (encs @ [d], ids @ [?id]), db_saves := Suc (db_saves st)\<rparr>"
  from Cons.prems(3) have d_new: "\<forall>e \<in> set encs. thr < distf e d" by force
  have step: "match_or_add_intruder distf thr st d = Inr (?id, ?st1)"
    using Cons.prems(1) d_new Cons.prems(2) by (rule match_or_add_miss)
  have load1: "load_intruder_db ?st1 = (encs @ [d], ids @ [?id])"
    by (simp add: load_intruder_db_def)
  have wr1: "db_writable ?st1" using Cons.prems(2) by simp
  have nov1: "\<forall>j < length ds. (\<forall>e \<in> set (encs @ [d]). thr < distf e (ds ! j))
                          \<and> (\<forall>i < j. thr < distf (ds ! i) (ds ! j))"
  proof (intro allI impI)
    fix j assume j: "j < length ds"
    then have sj: "Suc j < length (d # ds)" by simp
    from Cons.prems(3) sj
    have a: "\<forall>e \<in> set encs. thr < distf e ((d # ds) ! Suc j)"
      and b: "\<forall>i < Suc j. thr < distf ((d # ds) ! i) ((d # ds) ! Suc j)" by blast+
    from b have b0: "thr < distf d (ds ! j)" by force
    have b1: "\<forall>i < j. thr < distf (ds ! i) (ds ! j)"
    proof (intro allI impI)
      fix i assume "i < j"
      then have "Suc i < Suc j" by simp
      with b have "thr < distf ((d # ds) ! Suc i) ((d # ds) ! Suc j)" by blast
      then show "thr < distf (ds ! i) (ds ! j)" by simp
    qed
    from a b0 b1 show "(\<forall>e \<in> set (encs @ [d]). thr < distf e (ds ! j))
                          \<and> (\<forall>i < j. thr < distf (ds ! i) (ds ! j))" by auto
  qed
  note ih = Cons.IH [OF load1 wr1 nov1]
  have ids_eq: "?id # map (\<lambda>k. intruder_id (length (ids @ [?id]) + k)) [1..<Suc (length ds)]
                 = map (\<lambda>k. intruder_id (length ids + k)) [1..<Suc (length (d # ds))]"
    by (simp only: length_Cons upt_shift [of "length ds"]) (simp add: comp_def)
  show ?case
  proof (cases "ds = []")
    case True
    with step ih show ?thesis by simp
  next
    case False
    with step ih ids_eq show ?thesis by simp
  qed
qed
text \<open>
  Claim C3. Start from an empty registry (the file missing, or holding no record)
  that can be written, and resolve the descriptors \<open>ds\<close> one at a time, each one
  farther than the threshold from every descriptor resolved before it. Then after
  the first \<open>n\<close> resolutions, for every \<open>n\<close> up to the length of \<open>ds\<close>, the ids
  handed out are \<open>Intruder_1\<close> to \<open>Intruder_n\<close> in this order, the registry file holds
  exactly the first \<open>n\<close> descriptors paired with these ids, and it has been saved
  \<open>n\<close> times: each new record is appended and persisted by the call that assigns
  its id. The ids are pairwise different.
\<close>

theorem sequential_intruder_ids:
  assumes "load_intruder_db st = ([], [])" and "db_writable st"
    and "\<forall>j < length ds. \<forall>i < j. thr < distf (ds ! i) (ds ! j)"
  shows "(\<forall>n \<le> length ds.
            resolve_all distf thr st (take n ds)
              = Inr (map (\<lambda>k. ''Intruder_'' @ str_nat k) [1..<Suc n],
                     if n = 0 then st
                     else st\<lparr>db_file := Some (take n ds,
                                  map (\<lambda>k. ''Intruder_'' @ str_nat k) [1..<Suc n]),
                             db_saves := db_saves st + n\<rparr>))
         \<and> distinct (map (\<lambda>k. ''Intruder_'' @ str_nat k) [1..<Suc (length ds)])"
proof -
  have run: "resolve_all distf thr st (take n ds)
              = Inr (map (\<lambda>k. ''Intruder_'' @ str_nat k) [1..<Suc n],
                     if n = 0 then st
                     else st\<lparr>db_file := Some (take n ds,
                                  map (\<lambda>k. ''Intruder_'' @ str_nat k) [1..<Suc n]),
                             db_saves := db_saves st + n\<rparr>)"
    if n: "n \<le> length ds" for n
  proof -
    have nov: "\<forall>j < length (take n ds).
                 (\<forall>e \<in> set ([] :: 'a list). thr < distf e (take n ds ! j))
                 \<and> (\<forall>i < j. thr < distf (take n ds ! i) (take n ds ! j))"
      using assms(3) n by simp
    have len: "length (take n ds) = n" using n by simp
    have "resolve_all distf thr st (take n ds)
           = Inr (map (\<lambda>k. intruder_id (length ([] :: string list) + k))
                    [1..<Suc (length (take n ds))],
                  if take n ds = [] then st
                  else st\<lparr>db_file := Some ([] @ take n ds,
                         [] @ map (\<lambda>k. intruder_id (length ([] :: string list) + k))
                                [1..<Suc (length (take n ds))]),
                     db_saves := db_saves st + length (take n ds)\<rparr>)"
      using assms(1) assms(2) nov by (rule resolve_all_novel)
    moreover have "(take n ds = []) = (n = 0)" using n by auto
    ultimately show ?thesis using n by (simp add: min.absorb2 intruder_id_def)
  qed
  have "inj_on (\<lambda>k. ''Intruder_'' @ str_nat k) (set [1..<Suc (length ds)])"
    by (rule inj_onI) (simp add: str_nat_inj)
  then have "distinct (map (\<lambda>k. ''Intruder_'' @ str_nat k) [1..<Suc (length ds)])"
    by (simp add: distinct_map)
  with run show ?thesis by blast
qed

theorem sequential_intruder_ids_witness:
  "resolve_all (\<lambda>a b. \<bar>a - b\<bar>) (6 / 10)
     \<lparr>db_file = None, db_writable = True, db_saves = 0\<rparr> [0 :: real, 10, 20]
   = Inr ([''Intruder_1'', ''Intruder_2'', ''Intruder_3''],
          \<lparr>db_file = Some ([0, 10, 20], [''Intruder_1'', ''Intruder_2'', ''Intruder_3'']),
           db_writable = True, db_saves = 3\<rparr>)"
proof -
  have h1: "load_intruder_db \<lparr>db_file = None, db_writable = True, db_saves = 0\<rparr>
              = ([] :: real list, [])"
    by (simp add: load_intruder_db_def)
  have h2: "db_writable \<lparr>db_file = None :: (real list \<times> string list) option,
              db_writable = True, db_saves = 0\<rparr>" by simp
  have h3: "\<forall>j < length [0 :: real, 10, 20]. \<forall>i < j.
              6 / 10 < \<bar>[0 :: real, 10, 20] ! i - [0, 10, 20] ! j\<bar>"
    by (simp add: nth_Cons' less_Suc_eq numeral_3_eq_3)
  have ids: "map (\<lambda>k. ''Intruder_'' @ str_nat k) [1..<Suc 3]
               = [''Intruder_1'', ''Intruder_2'', ''Intruder_3'']"
    by (simp add: upt_rec str_nat.simps digit_char_def)
  have h4: "3 \<le> length [0 :: real, 10, 20]" by simp
  note run = sequential_intruder_ids [OF h1 h2 h3, THEN conjunct1, rule_format, OF h4]
  have "take 3 [0 :: real, 10, 20] = [0, 10, 20]" by simp
  with run [unfolded ids] show ?thesis by simp
qed

section \<open>The reader thread\<close>

lemma reader_enqueue_single:
  assumes "maxsize q = 1" and "length (items q) \<le> 1"
  shows "reader_enqueue q frame = q\<lparr>items := [frame]\<rparr>"
proof (cases "items q")
  case Nil
  with assms(1) show ?thesis
    by (simp add: reader_enqueue_def q_empty_def put_nowait_def q_full_def)
next
  case (Cons x xs)
  with assms(2) have "xs = []" by simp
  with Cons assms(1) show ?thesis
    by (simp add: reader_enqueue_def q_empty_def get_nowait_def put_nowait_def q_full_def)
qed

lemma reader_keeps_latest:
  assumes "maxsize (internal_frame_queue s) = 1"
    and "length (items (internal_frame_queue s)) \<le> 1"
    and "\<not> stop_event w"
  shows "\<exists>s'. reader_iterations
                (map (\<lambda>f. \<lparr>stop_requested = False, read_result = Some f, reopen_ok = b\<rparr>) fs) w s
              = (Running, w, s')
            \<and> maxsize (internal_frame_queue s') = 1
            \<and> items (internal_frame_queue s')
                = (if fs = [] then items (internal_frame_queue s) else [last fs])"
  using assms
proof (induction fs arbitrary: s)
  case Nil
  then show ?case by simp
next
  case (Cons f fs)
  let ?s1 = "time_sleep (1 / 1000)
               (s\<lparr>internal_frame_queue := reader_enqueue (internal_frame_queue s) f\<rparr>)"
  have enq: "reader_enqueue (internal_frame_queue s) f = (internal_frame_queue s)\<lparr>items := [f]\<rparr>"
    using Cons.prems(1,2) by (rule reader_enqueue_single)
  have q1: "maxsize (internal_frame_queue ?s1) = 1"
    using Cons.prems(1) by (simp add: time_sleep_def enq)
  have q2: "items (internal_frame_queue ?s1) = [f]"
    by (simp add: time_sleep_def enq)
  then have q3: "length (items (internal_frame_queue ?s1)) \<le> 1" by simp
  from Cons.IH [OF q1 q3 Cons.prems(3)] obtain s' where
    run: "reader_iterations
            (map (\<lambda>f. \<lparr>stop_requested = False, read_result = Some f, reopen_ok = b\<rparr>) fs) w ?s1
          = (Running, w, s')"
    and m: "maxsize (internal_frame_queue s') = 1"
    and it: "items (internal_frame_queue s')
               = (if fs = [] then items (internal_frame_queue ?s1) else [last fs])"
    by blast
  have "reader_iterations
          (map (\<lambda>f. \<lparr>stop_requested = False, read_result = Some f, reopen_ok = b\<rparr>) (f # fs)) w s
        = (Running, w, s')"
    using run Cons.prems(3) by simp
  moreover have "items (internal_frame_queue s') = [last (f # fs)]"
    using it q2 by simp
  ultimately show ?case using m by auto
qed

text \<open>
  Claim C4. The internal queue is created with capacity one. On a queue of capacity
  one that holds at most one frame, the reader's enqueue step never fails and never
  waits: it leaves exactly the new frame in the queue, so an unconsumed frame is
  evicted. Hence, when nobody reads the queue and the stop flag stays clear, after
  the acquisitions \<open>fs\<close> (any positive number of them) the loop is still running and
  the queue holds exactly the last acquired frame.
\<close>

theorem internal_queue_holds_latest_frame:
  assumes "maxsize (internal_frame_queue s) = 1"
    and "length (items (internal_frame_queue s)) \<le> 1"
    and "\<not> stop_event w"
    and "fs \<noteq> []"
  shows "reader_enqueue (internal_frame_queue s) frame = (internal_frame_queue s)\<lparr>items := [frame]\<rparr>
       \<and> (\<exists>s'. reader_iterations
                (map (\<lambda>f. \<lparr>stop_requested = False, read_result = Some f, reopen_ok = b\<rparr>) fs) w s
              = (Running, w, s')
            \<and> maxsize (internal_frame_queue s') = 1
            \<and> items (internal_frame_queue s') = [last fs])"
proof -
  have a: "reader_enqueue (internal_frame_queue s) frame
             = (internal_frame_queue s)\<lparr>items := [frame]\<rparr>"
    using assms(1,2) by (rule reader_enqueue_single)
  from reader_keeps_latest [OF assms(1-3), of b fs] assms(4)
  have "\<exists>s'. reader_iterations
                (map (\<lambda>f. \<lparr>stop_requested = False, read_result = Some f, reopen_ok = b\<rparr>) fs) w s
              = (Running, w, s')
            \<and> maxsize (internal_frame_queue s') = 1
            \<and> items (internal_frame_queue s') = [last fs]"
    by simp
  with a show ?thesis by blast
qed

theorem internal_queue_holds_latest_frame_witness:
  "items (internal_frame_queue (snd (snd
     (reader_iterations
        (map (\<lambda>f. \<lparr>stop_requested = False, read_result = Some f, reopen_ok = True\<rparr>)
           [10 :: nat, 11, 12])
        (\<lparr>stop_event = False, last_unknown_capture_time = 0,
          intruder_db = \<lparr>db_file = None, db_writable = True, db_saves = 0\<rparr>,
          log_file = [], snapshots = [], alerts = []\<rparr> :: (nat, real) shared)
        (init_stream ''0'' [] [] [] \<lparr>maxsize = 1, items = []\<rparr>))))) = [12]"
  using internal_queue_holds_latest_frame
    [of "init_stream ''0'' [] [] [] \<lparr>maxsize = 1, items = []\<rparr> :: (nat, real) camera_stream"
        "\<lparr>stop_event = False, last_unknown_capture_time = 0,
          intruder_db = \<lparr>db_file = None, db_writable = True, db_saves = 0\<rparr>,
          log_file = [], snapshots = [], alerts = []\<rparr>"
        "[10, 11, 12]" 0 True]
  by (auto simp: init_stream_def)

lemma reader_failed_read_step:
  assumes "\<not> stop_event w" and "\<not> stop_requested i" and "read_result i = None"
  shows "reader_iterations (i # rest) w s =
           (if reopen_ok i
            then reader_iterations rest w
                   (s\<lparr>cap_opened := True,
                      cap_log := cap_log s @ [Release, Sleep (1 / 2), Open]\<rparr>)
            else (Exited, w\<lparr>stop_event := True\<rparr>,
                  s\<lparr>cap_opened := False,
                    cap_log := cap_log s @ [Release, Sleep (1 / 2), Open, Release]\<rparr>))"
  using assms by (simp add: cap_open_def cap_release_def time_sleep_def)

lemma reader_exit_released:
  "reader_iterations inputs w s = (Exited, w', s')
     \<Longrightarrow> \<not> cap_opened s' \<and> stop_event w' \<and> cap_log s' \<noteq> [] \<and> last (cap_log s') = Release"
proof (induction inputs arbitrary: w s)
  case Nil
  then show ?case by simp
next
  case (Cons i rest)
  let ?w0 = "if stop_requested i then w\<lparr>stop_event := True\<rparr> else w"
  show ?case
  proof (cases "stop_event ?w0")
    case True
    with Cons.prems have "w' = ?w0" and "s' = cap_release s"
      by (simp_all add: Let_def)
    with True show ?thesis by (simp add: cap_release_def)
  next
    case running: False
    show ?thesis
    proof (cases "read_result i")
      case None
      let ?s1 = "cap_open (reopen_ok i) (time_sleep (1 / 2) (cap_release s))"
      show ?thesis
      proof (cases "reopen_ok i")
        case True
        then have "cap_opened ?s1" by (simp add: cap_open_def)
        with Cons.prems running None
        have "reader_iterations rest ?w0 ?s1 = (Exited, w', s')"
          by (simp add: Let_def)
        then show ?thesis by (rule Cons.IH)
      next
        case False
        then have "\<not> cap_opened ?s1" by (simp add: cap_open_def)
        with Cons.prems running None
        have "w' = ?w0\<lparr>stop_event := True\<rparr>" and "s' = cap_release ?s1"
          by (simp_all add: Let_def)
        then show ?thesis by (simp add: cap_release_def)
      qed
    next
      case (Some frame)
      with Cons.prems running
      have "reader_iterations rest ?w0
              (time_sleep (1 / 1000)
                 (s\<lparr>internal_frame_queue := reader_enqueue (internal_frame_queue s) frame\<rparr>))
            = (Exited, w', s')"
        by (simp add: Let_def)
      then show ?thesis by (rule Cons.IH)
    qed
  qed
qed

lemma reader_exits:
  "\<exists>i \<in> set inputs. stop_requested i \<or> (read_result i = None \<and> \<not> reopen_ok i)
     \<Longrightarrow> fst (reader_iterations inputs w s) = Exited"
proof (induction inputs arbitrary: w s)
  case Nil
  then show ?case by simp
next
  case (Cons i rest)
  show ?case
  proof (cases "stop_requested i \<or> (read_result i = None \<and> \<not> reopen_ok i)")
    case True
    then show ?thesis
      by (auto simp: Let_def cap_open_def split: option.splits)
  next
    case False
    with Cons.prems
    have "\<exists>i \<in> set rest. stop_requested i \<or> (read_result i = None \<and> \<not> reopen_ok i)"
      by auto
    note ih = Cons.IH [OF this]
    show ?thesis
      using False ih by (auto simp: Let_def cap_open_def split: option.splits)
  qed
qed

text \<open>
  Claim C8. (1) An iteration of the reader loop whose read fails releases the
  capture, sleeps the fixed half second and opens the source again, in this order;
  when the source opens, the loop goes on; when it does not, the shared stop flag is
  set and the thread leaves the loop and releases the capture once more. (2) Whenever
  the reader thread has exited, by any path, the shared stop flag is set and the
  thread holds no opened capture; on every exit after the first open succeeded, the
  last call on the capture is a release (when the first open fails, the thread
  returns at once: there is no opened capture, and no release call). (3) The thread
  does exit when the first open fails, and otherwise as soon as an iteration finds
  the stop flag requested or a read followed by a reopen both fail.
\<close>

theorem reader_recovers_or_stops_and_releases:
  "(\<not> stop_event w \<and> \<not> stop_requested i \<and> read_result i = None \<longrightarrow>
      reader_iterations (i # rest) w s =
        (if reopen_ok i
         then reader_iterations rest w
                (s\<lparr>cap_opened := True,
                   cap_log := cap_log s @ [Release, Sleep (1 / 2), Open]\<rparr>)
         else (Exited, w\<lparr>stop_event := True\<rparr>,
               s\<lparr>cap_opened := False,
                 cap_log := cap_log s @ [Release, Sleep (1 / 2), Open, Release]\<rparr>)))
   \<and> (\<forall>w' s'. run_reader_loop open_ok inputs w s = (Exited, w', s') \<longrightarrow>
         \<not> cap_opened s' \<and> stop_event w' \<and> (open_ok \<longrightarrow> last (cap_log s') = Release))
   \<and> ((open_ok \<longrightarrow>
          (\<exists>j \<in> set inputs. stop_requested j \<or> (read_result j = None \<and> \<not> reopen_ok j)))
        \<longrightarrow> fst (run_reader_loop open_ok inputs w s) = Exited)"
proof (intro conjI allI impI)
  assume "\<not> stop_event w \<and> \<not> stop_requested i \<and> read_result i = None"
  then show "reader_iterations (i # rest) w s =
        (if reopen_ok i
         then reader_iterations rest w
                (s\<lparr>cap_opened := True,
                   cap_log := cap_log s @ [Release, Sleep (1 / 2), Open]\<rparr>)
         else (Exited, w\<lparr>stop_event := True\<rparr>,
               s\<lparr>cap_opened := False,
                 cap_log := cap_log s @ [Release, Sleep (1 / 2), Open, Release]\<rparr>))"
    using reader_failed_read_step by blast
next
  fix w' s'
  assume ex: "run_reader_loop open_ok inputs w s = (Exited, w', s')"
  show "\<not> cap_opened s'"
  proof (cases open_ok)
    case True
    with ex have "reader_iterations inputs w (cap_open True s) = (Exited, w', s')"
      by (simp add: run_reader_loop_def Let_def cap_open_def)
    then show ?thesis using reader_exit_released by blast
  next
    case False
    with ex show ?thesis by (auto simp: run_reader_loop_def Let_def cap_open_def)
  qed
  show "stop_event w'"
  proof (cases open_ok)
    case True
    with ex have "reader_iterations inputs w (cap_open True s) = (Exited, w', s')"
      by (simp add: run_reader_loop_def Let_def cap_open_def)
    then show ?thesis using reader_exit_released by blast
  next
    case False
    with ex show ?thesis by (auto simp: run_reader_loop_def Let_def cap_open_def)
  qed
  assume open_ok
  with ex have "reader_iterations inputs w (cap_open True s) = (Exited, w', s')"
    by (simp add: run_reader_loop_def Let_def cap_open_def)
  then show "last (cap_log s') = Release" using reader_exit_released by blast
next
  assume h: "open_ok \<longrightarrow>
          (\<exists>j \<in> set inputs. stop_requested j \<or> (read_result j = None \<and> \<not> reopen_ok j))"
  show "fst (run_reader_loop open_ok inputs w s) = Exited"
  proof (cases open_ok)
    case True
    with h have "\<exists>j \<in> set inputs. stop_requested j \<or> (read_result j = None \<and> \<not> reopen_ok j)"
      by blast
    from reader_exits [OF this] True show ?thesis
      by (simp add: run_reader_loop_def Let_def cap_open_def)
  next
    case False
    then show ?thesis by (simp add: run_reader_loop_def Let_def cap_open_def)
  qed
qed
theorem reader_recovers_or_stops_and_releases_witness:
  "reader_iterations [\<lparr>stop_requested = False, read_result = None, reopen_ok = False\<rparr>]
     (\<lparr>stop_event = False, last_unknown_capture_time = 0,
       intruder_db = \<lparr>db_file = None, db_writable = True, db_saves = 0\<rparr>,
       log_file = [], snapshots = [], alerts = []\<rparr> :: (nat, real) shared)
     (init_stream ''0'' [] [] [] \<lparr>maxsize = 1, items = []\<rparr>)
   = (Exited,
      \<lparr>stop_event = True, last_unknown_capture_time = 0,
       intruder_db = \<lparr>db_file = None, db_writable = True, db_saves = 0\<rparr>,
       log_file = [], snapshots = [], alerts = []\<rparr>,
      (init_stream ''0'' [] [] [] \<lparr>maxsize = 1, items = []\<rparr>)
        \<lparr>cap_log := [Release, Sleep (1 / 2), Open, Release]\<rparr>)
   \<and> fst (run_reader_loop True
        [\<lparr>stop_requested = False, read_result = Some 7, reopen_ok = True\<rparr>,
         \<lparr>stop_requested = False, read_result = None, reopen_ok = True\<rparr>,
         \<lparr>stop_requested = True, read_result = Some 8, reopen_ok = True\<rparr>]
        (\<lparr>stop_event = False, last_unknown_capture_time = 0,
          intruder_db = \<lparr>db_file = None, db_writable = True, db_saves = 0\<rparr>,
          log_file = [], snapshots = [], alerts = []\<rparr> :: (nat, real) shared)
        (init_stream ''0'' [] [] [] \<lparr>maxsize = 1, items = []\<rparr>)) = Exited
   \<and> cap_log (snd (snd (run_reader_loop True
        [\<lparr>stop_requested = False, read_result = Some 7, reopen_ok = True\<rparr>,
         \<lparr>stop_requested = False, read_result = None, reopen_ok = True\<rparr>,
         \<lparr>stop_requested = True, read_result = Some 8, reopen_ok = True\<rparr>]
        (\<lparr>stop_event = False, last_unknown_capture_time = 0,
          intruder_db = \<lparr>db_file = None, db_writable = True, db_saves = 0\<rparr>,
          log_file = [], snapshots = [], alerts = []\<rparr> :: (nat, real) shared)
        (init_stream ''0'' [] [] [] \<lparr>maxsize = 1, items = []\<rparr>))))
     = [Open, Sleep (1 / 1000), Release, Sleep (1 / 2), Open, Release]"
  using reader_recovers_or_stops_and_releases
    [of "\<lparr>stop_event = False, last_unknown_capture_time = 0,
          intruder_db = \<lparr>db_file = None, db_writable = True, db_saves = 0\<rparr>,
          log_file = [], snapshots = [], alerts = []\<rparr> :: (nat, real) shared"
        "\<lparr>stop_requested = False, read_result = None, reopen_ok = False\<rparr>" "[]"
        "init_stream ''0'' [] [] [] \<lparr>maxsize = 1, items = []\<rparr>" True
        "[\<lparr>stop_requested = False, read_result = Some 7, reopen_ok = True\<rparr>,
          \<lparr>stop_requested = False, read_result = None, reopen_ok = True\<rparr>,
          \<lparr>stop_requested = True, read_result = Some 8, reopen_ok = True\<rparr>]"]
  by (simp add: init_stream_def run_reader_loop_def cap_open_def cap_release_def
        time_sleep_def reader_enqueue_def q_empty_def put_nowait_def q_full_def)

section \<open>The processing thread: frames\<close>

lemma process_this_frame_dvd: "process_this_frame c = (4 dvd c)"
  by (simp add: process_this_frame_def dvd_eq_mod_eq_0)

lemma iteration_skipped:
  assumes "\<not> 4 dvd (frame_counter s + 1)"
  shows "run_processing_iteration vis cks frame w s
           = (Continue, w, publish (s\<lparr>frame_counter := frame_counter s + 1\<rparr>) frame)"
  using assms by (simp add: run_processing_iteration_def process_this_frame_dvd Let_def)

lemma iteration_too_many_faces:
  assumes "4 dvd (frame_counter s + 1)"
    and "\<not> frame_invalid vis (small_rgb vis frame)"
    and "face_locations vis (small_rgb vis frame) = Inr locs"
    and "length locs > MAX_REASONABLE_FACES"
  shows "run_processing_iteration vis cks frame w s
           = (Continue, w, s\<lparr>frame_counter := frame_counter s + 1\<rparr>)"
  using assms by (simp add: run_processing_iteration_def process_this_frame_dvd Let_def)

lemma publish_queue:
  "frame_queue (publish s frame)
     = (if q_full (frame_queue s) then frame_queue s
        else (frame_queue s)\<lparr>items := items (frame_queue s) @ [frame]\<rparr>)"
  by (simp add: publish_def put_nowait_def)

text \<open>
  Claim C7. On a frame that is due for detection, when detection returns more boxes
  than the ceiling of ten, the iteration goes straight to the next one: the shared
  state is as before (no log entry, snapshot, alert, registry write or stop), and the
  stream is as before except for its frame counter, so nothing was put into the
  display queue and no per-identity timestamp moved. The result does not depend on
  the encoding, the distance or the drawing capabilities: none of them is run.
\<close>

theorem too_many_faces_drops_frame:
  assumes "4 dvd (frame_counter s + 1)"
    and "\<not> frame_invalid vis (small_rgb vis frame)"
    and "face_locations vis (small_rgb vis frame) = Inr locs"
    and "length locs > 10"
  shows "run_processing_iteration vis cks frame w s
           = (Continue, w, s\<lparr>frame_counter := frame_counter s + 1\<rparr>)
       \<and> frame_queue (snd (snd (run_processing_iteration vis cks frame w s))) = frame_queue s
       \<and> run_processing_iteration
            (vis\<lparr>face_encodings := enc', descriptor_distance := dist',
                 draw_faces := df', draw_banner := db'\<rparr>) cks frame w s
           = run_processing_iteration vis cks frame w s"
proof -
  from assms(4) have many: "length locs > MAX_REASONABLE_FACES"
    by (simp add: MAX_REASONABLE_FACES_def)
  have a: "run_processing_iteration vis cks frame w s
             = (Continue, w, s\<lparr>frame_counter := frame_counter s + 1\<rparr>)"
    using assms(1-3) many by (rule iteration_too_many_faces)
  let ?vis' = "vis\<lparr>face_encodings := enc', descriptor_distance := dist',
                 draw_faces := df', draw_banner := db'\<rparr>"
  have "run_processing_iteration ?vis' cks frame w s
          = (Continue, w, s\<lparr>frame_counter := frame_counter s + 1\<rparr>)"
    using assms(1-3) many by (intro iteration_too_many_faces) simp_all
  with a show ?thesis by simp
qed

theorem too_many_faces_drops_frame_witness:
  "run_processing_iteration crowd_vision (clocks_at 1000) 7 fresh_shared
     ((fresh_stream [])\<lparr>frame_counter := 3\<rparr>)
   = (Continue, fresh_shared, (fresh_stream [])\<lparr>frame_counter := 4\<rparr>)"
  using too_many_faces_drops_frame
    [of "(fresh_stream [])\<lparr>frame_counter := 3\<rparr>" crowd_vision 7
        "replicate 11 (0, 40, 40, 0)" "clocks_at 1000" fresh_shared]
  by (simp add: crowd_vision_def blind_vision_def fresh_stream_def init_stream_def)

lemma skipped_frame_offered_unchanged:
  "process_this_frame c = (4 dvd c)
   \<and> frame_counter (init_stream cam known_encs known_names known_genders fq
         :: ('f, 'd) camera_stream) = 0
   \<and> (\<not> 4 dvd (frame_counter s + 1) \<longrightarrow>
        run_processing_iteration vis cks frame w s
          = (Continue, w, publish (s\<lparr>frame_counter := frame_counter s + 1\<rparr>) frame)
        \<and> run_processing_iteration vis' cks' frame w s
          = run_processing_iteration vis cks frame w s)"
proof (intro conjI impI)
  show "process_this_frame c = (4 dvd c)" by (rule process_this_frame_dvd)
  show "frame_counter (init_stream cam known_encs known_names known_genders fq
         :: ('f, 'd) camera_stream) = 0"
    by (simp add: init_stream_def)
next
  assume skip: "\<not> 4 dvd (frame_counter s + 1)"
  show a: "run_processing_iteration vis cks frame w s
          = (Continue, w, publish (s\<lparr>frame_counter := frame_counter s + 1\<rparr>) frame)"
    using skip by (rule iteration_skipped)
  have "run_processing_iteration vis' cks' frame w s
          = (Continue, w, publish (s\<lparr>frame_counter := frame_counter s + 1\<rparr>) frame)"
    using skip by (rule iteration_skipped)
  with a show "run_processing_iteration vis' cks' frame w s
          = run_processing_iteration vis cks frame w s" by simp
qed

text \<open>
  Claim C5. The code does what the claim says about skipping: detection is due
  exactly on the counters that are multiples of 4, the counter of a new stream is 0
  and is incremented before the test, and on every other counter the iteration runs
  no capability and hands the frame itself, with nothing drawn, to \<open>publish\<close>
  (\<open>skipped_frame_offered_unchanged\<close>). The code does not do what the claim says
  about forwarding: \<open>publish\<close> puts without evicting, so on a full display queue it
  drops the new frame and keeps the old one, where the reader's step on its own
  queue evicts the waiting frame first. With frame 5 waiting in the one-slot display
  queue, the first frame of a stream, frame 6 (counter 1, not a multiple of 4), never
  reaches the queue, which still holds 5; the reader's evict-then-put step on that
  queue would leave exactly frame 6.
\<close>

theorem skipped_frame_dropped_when_display_full:
  "\<not> 4 dvd (frame_counter (fresh_stream [5]) + 1)
   \<and> run_processing_iteration blind_vision (clocks_at 1000) 6 fresh_shared (fresh_stream [5])
       = (Continue, fresh_shared, (fresh_stream [5])\<lparr>frame_counter := 1\<rparr>)
   \<and> items (frame_queue ((fresh_stream [5])\<lparr>frame_counter := 1\<rparr>)) = [5]
   \<and> 6 \<notin> set (items (frame_queue (snd (snd
         (run_processing_iteration blind_vision (clocks_at 1000) 6 fresh_shared
            (fresh_stream [5]))))))
   \<and> items (reader_enqueue (frame_queue (fresh_stream [5])) 6) = [6]"
  by (simp add: run_processing_iteration_def process_this_frame_def fresh_stream_def
        init_stream_def publish_def put_nowait_def get_nowait_def q_full_def q_empty_def
        reader_enqueue_def Let_def)

section \<open>The processing thread: one face\<close>

lemma process_face_suppressed:
  assumes "recognize_known distf s enc = Inr (''Unknown'', g, n)"
    and "time_time ck - last_unknown_capture_time w < UNKNOWN_CAPTURE_DEBOUNCE_TIME"
  shows "process_face distf ck frame enc w s
           = ((case intruder_id_for_event s of
                 None \<Rightarrow> Inl UnboundLocalError
               | Some iid \<Rightarrow> Inr iid), w, s)"
  using assms
  by (simp add: process_face_def unknown_debounce_gate_def split: option.splits)

lemma process_face_allowed:
  assumes "recognize_known distf s enc = Inr (''Unknown'', g, n)"
    and "time_time ck - last_unknown_capture_time w \<ge> UNKNOWN_CAPTURE_DEBOUNCE_TIME"
    and "match_or_add_intruder distf RECOGNITION_TOLERANCE (intruder_db w) enc = Inr (iid, db')"
  shows "process_face distf ck frame enc w s
           = (Inr iid,
              w\<lparr>last_unknown_capture_time := time_time ck,
                intruder_db := db',
                snapshots := snapshots w
                   @ [(INTRUDERS_FOLDER @ ''/intruder_'' @ capture_stamp ck @ ''.jpg'', frame)],
                log_file := log_file w
                   @ [(iid, ''Intruder'',
                       INTRUDERS_FOLDER @ ''/intruder_'' @ capture_stamp ck @ ''.jpg'')],
                alerts := alerts w
                   @ [(INTRUDERS_FOLDER @ ''/intruder_'' @ capture_stamp ck @ ''.jpg'',
                       alert_stamp ck, camera_input s)]\<rparr>,
              s\<lparr>intruder_id_for_event := Some iid\<rparr>)"
  using assms
  by (simp add: process_face_def unknown_debounce_gate_def full_intruder_event_def
        write_log_entry_def INTRUDERS_FOLDER_def Let_def)

lemma process_face_allowed_failed:
  assumes "recognize_known distf s enc = Inr (''Unknown'', g, n)"
    and "time_time ck - last_unknown_capture_time w \<ge> UNKNOWN_CAPTURE_DEBOUNCE_TIME"
    and "match_or_add_intruder distf RECOGNITION_TOLERANCE (intruder_db w) enc = Inl e"
  shows "process_face distf ck frame enc w s
           = ((case intruder_id_for_event s of
                 None \<Rightarrow> Inl UnboundLocalError
               | Some iid \<Rightarrow> Inr iid),
              w\<lparr>last_unknown_capture_time := time_time ck\<rparr>, s)"
  using assms
  by (simp add: process_face_def unknown_debounce_gate_def full_intruder_event_def
        split: option.splits)

lemma process_face_known:
  assumes "recognize_known distf s enc = Inr (name, gender, name_only)"
    and "name \<noteq> ''Unknown''"
  shows "process_face distf ck frame enc w s
           = (Inr name_only,
              if (case last_logged_times s name of None \<Rightarrow> True
                  | Some t \<Rightarrow> datetime_now ck - t \<ge> KNOWN_FACE_LOG_DEBOUNCE_TIME)
              then (w\<lparr>log_file := log_file w @ [(name_only, gender, ''N/A'')]\<rparr>,
                    s\<lparr>last_logged_times := (last_logged_times s)(name \<mapsto> datetime_now ck)\<rparr>)
              else (w, s))"
  using assms
  by (simp add: process_face_def log_known_face_def write_log_entry_def Let_def)

lemma recognize_known_catalog:
  assumes "known_face_encodings s' = known_face_encodings s"
    and "known_face_names s' = known_face_names s"
    and "known_face_genders s' = known_face_genders s"
    and "recognition_tolerance s' = recognition_tolerance s"
  shows "recognize_known distf s' enc = recognize_known distf s enc"
  by (simp only: recognize_known_def assms)

lemma match_or_add_total:
  assumes "db_writable st"
    and "length (fst (load_intruder_db st)) = length (snd (load_intruder_db st))"
  shows "\<exists>iid st'. match_or_add_intruder distf thr st d = Inr (iid, st')
           \<and> db_writable st'
           \<and> length (fst (load_intruder_db st')) = length (snd (load_intruder_db st'))"
proof -
  obtain encs ids where l: "load_intruder_db st = (encs, ids)" by (cases "load_intruder_db st")
  with assms(2) have len: "length ids = length encs" by simp
  show ?thesis
  proof (cases "\<exists>e \<in> set encs. distf e d \<le> thr")
    case True
    then have ne: "encs \<noteq> []" by auto
    have lt: "argmin (face_distance distf encs d) < length ids"
      using ne len by (simp add: argmin_face_distance_less)
    have "match_or_add_intruder distf thr st d
            = Inr (ids ! argmin (face_distance distf encs d), st)"
      using l True ne lt by (simp add: match_or_add_intruder_def compare_faces_hit)
    with assms show ?thesis by blast
  next
    case False
    then have far: "\<forall>e \<in> set encs. thr < distf e d" by force
    have "match_or_add_intruder distf thr st d
           = Inr (intruder_id (length ids + 1),
                  st\<lparr>db_file := Some (encs @ [d], ids @ [intruder_id (length ids + 1)]),
                     db_saves := Suc (db_saves st)\<rparr>)"
      using l far assms(1) by (rule match_or_add_miss)
    with len assms(1) show ?thesis
      by (simp add: load_intruder_db_def)
  qed
qed

lemma iteration_crash_on_first_face:
  assumes "4 dvd (frame_counter s + 1)"
    and "\<not> frame_invalid vis (small_rgb vis frame)"
    and "face_locations vis (small_rgb vis frame) = Inr locs"
    and "length locs \<le> 10"
    and "face_encodings vis (small_rgb vis frame) (filter valid_face_location locs)
           = Inr (enc # encs)"
    and "\<not> stop_event w"
    and "process_face (descriptor_distance vis) (cks 0) frame enc w
           (s\<lparr>frame_counter := frame_counter s + 1\<rparr>) = (Inl err, w', s')"
  shows "run_processing_iteration vis cks frame w s = (Crash err, w', s')"
  using assms
  by (simp add: run_processing_iteration_def process_this_frame_dvd Let_def
        MAX_REASONABLE_FACES_def)

text \<open>
  Claim C9. A new stream has no identity id bound. When the global gate suppresses
  the full event for an unknown face, nothing changes and the label is whatever the
  stream's variable \<open>intruder_id_for_event\<close> holds: if the stream's previous full
  event resolved the id \<open>iid\<close>, a face suppressed afterwards is labelled \<open>iid\<close>; if the
  variable has never been bound, reading it fails with \<open>UnboundLocalError\<close> and no
  label is produced. Nothing in the loop catches that exception: the iteration, and
  with it the processing thread, ends there.
\<close>

theorem suppressed_event_reuses_previous_id:
  "intruder_id_for_event (init_stream cam known_encs known_names known_genders fq
       :: ('f, 'd) camera_stream) = None
   \<and> (recognize_known distf s enc = Inr (''Unknown'', g, n)
        \<and> time_time ck - last_unknown_capture_time w < UNKNOWN_CAPTURE_DEBOUNCE_TIME
      \<longrightarrow> process_face distf ck frame enc w s
            = ((case intruder_id_for_event s of
                  None \<Rightarrow> Inl UnboundLocalError
                | Some iid \<Rightarrow> Inr iid), w, s))
   \<and> (recognize_known distf s enc = Inr (''Unknown'', g, n)
        \<and> time_time ck - last_unknown_capture_time w \<ge> UNKNOWN_CAPTURE_DEBOUNCE_TIME
        \<and> match_or_add_intruder distf RECOGNITION_TOLERANCE (intruder_db w) enc
            = Inr (iid, db')
        \<and> recognize_known distf s enc2 = Inr (''Unknown'', g2, n2)
        \<and> time_time ck2 - time_time ck < UNKNOWN_CAPTURE_DEBOUNCE_TIME
      \<longrightarrow> fst (process_face distf ck2 frame2 enc2
                 (fst (snd (process_face distf ck frame enc w s)))
                 (snd (snd (process_face distf ck frame enc w s)))) = Inr iid)
   \<and> (4 dvd (frame_counter s + 1)
        \<and> \<not> frame_invalid vis (small_rgb vis frame)
        \<and> face_locations vis (small_rgb vis frame) = Inr locs
        \<and> length locs \<le> 10
        \<and> face_encodings vis (small_rgb vis frame) (filter valid_face_location locs)
            = Inr (enc # encs)
        \<and> \<not> stop_event w
        \<and> recognize_known (descriptor_distance vis) s enc = Inr (''Unknown'', g, n)
        \<and> time_time (cks 0) - last_unknown_capture_time w < UNKNOWN_CAPTURE_DEBOUNCE_TIME
        \<and> intruder_id_for_event s = None
      \<longrightarrow> run_processing_iteration vis cks frame w s
            = (Crash UnboundLocalError, w, s\<lparr>frame_counter := frame_counter s + 1\<rparr>))"
proof (intro conjI impI)
  show "intruder_id_for_event (init_stream cam known_encs known_names known_genders fq
       :: ('f, 'd) camera_stream) = None"
    by (simp add: init_stream_def)
next
  assume "recognize_known distf s enc = Inr (''Unknown'', g, n)
        \<and> time_time ck - last_unknown_capture_time w < UNKNOWN_CAPTURE_DEBOUNCE_TIME"
  then have u: "recognize_known distf s enc = Inr (''Unknown'', g, n)"
    and sup: "time_time ck - last_unknown_capture_time w < UNKNOWN_CAPTURE_DEBOUNCE_TIME"
    by simp_all
  from u sup show "process_face distf ck frame enc w s
            = ((case intruder_id_for_event s of
                  None \<Rightarrow> Inl UnboundLocalError
                | Some iid \<Rightarrow> Inr iid), w, s)"
    by (rule process_face_suppressed)
next
  assume h: "recognize_known distf s enc = Inr (''Unknown'', g, n)
        \<and> time_time ck - last_unknown_capture_time w \<ge> UNKNOWN_CAPTURE_DEBOUNCE_TIME
        \<and> match_or_add_intruder distf RECOGNITION_TOLERANCE (intruder_db w) enc
            = Inr (iid, db')
        \<and> recognize_known distf s enc2 = Inr (''Unknown'', g2, n2)
        \<and> time_time ck2 - time_time ck < UNKNOWN_CAPTURE_DEBOUNCE_TIME"
  let ?w1 = "fst (snd (process_face distf ck frame enc w s))"
  let ?s1 = "snd (snd (process_face distf ck frame enc w s))"
  from h have first: "process_face distf ck frame enc w s
           = (Inr iid,
              w\<lparr>last_unknown_capture_time := time_time ck,
                intruder_db := db',
                snapshots := snapshots w
                   @ [(INTRUDERS_FOLDER @ ''/intruder_'' @ capture_stamp ck @ ''.jpg'', frame)],
                log_file := log_file w
                   @ [(iid, ''Intruder'',
                       INTRUDERS_FOLDER @ ''/intruder_'' @ capture_stamp ck @ ''.jpg'')],
                alerts := alerts w
                   @ [(INTRUDERS_FOLDER @ ''/intruder_'' @ capture_stamp ck @ ''.jpg'',
                       alert_stamp ck, camera_input s)]\<rparr>,
              s\<lparr>intruder_id_for_event := Some iid\<rparr>)"
    by (intro process_face_allowed [where g = g and n = n]) simp_all
  have s1: "?s1 = s\<lparr>intruder_id_for_event := Some iid\<rparr>" by (simp add: first)
  have last1: "last_unknown_capture_time ?w1 = time_time ck" by (simp add: first)
  have "recognize_known distf ?s1 enc2 = recognize_known distf s enc2"
    by (rule recognize_known_catalog) (simp_all add: s1)
  with h have u2: "recognize_known distf ?s1 enc2 = Inr (''Unknown'', g2, n2)" by simp
  from h last1
  have sup: "time_time ck2 - last_unknown_capture_time ?w1 < UNKNOWN_CAPTURE_DEBOUNCE_TIME"
    by simp
  from process_face_suppressed [OF u2 sup, of frame2]
  show "fst (process_face distf ck2 frame2 enc2 ?w1 ?s1) = Inr iid"
    by (simp add: s1)
next
  assume h: "4 dvd (frame_counter s + 1)
        \<and> \<not> frame_invalid vis (small_rgb vis frame)
        \<and> face_locations vis (small_rgb vis frame) = Inr locs
        \<and> length locs \<le> 10
        \<and> face_encodings vis (small_rgb vis frame) (filter valid_face_location locs)
            = Inr (enc # encs)
        \<and> \<not> stop_event w
        \<and> recognize_known (descriptor_distance vis) s enc = Inr (''Unknown'', g, n)
        \<and> time_time (cks 0) - last_unknown_capture_time w < UNKNOWN_CAPTURE_DEBOUNCE_TIME
        \<and> intruder_id_for_event s = None"
  let ?s1 = "s\<lparr>frame_counter := frame_counter s + 1\<rparr>"
  have "recognize_known (descriptor_distance vis) ?s1 enc
          = recognize_known (descriptor_distance vis) s enc"
    by (rule recognize_known_catalog) simp_all
  with h have u: "recognize_known (descriptor_distance vis) ?s1 enc = Inr (''Unknown'', g, n)"
    by simp
  from h have sup: "time_time (cks 0) - last_unknown_capture_time w
                      < UNKNOWN_CAPTURE_DEBOUNCE_TIME" by blast
  from process_face_suppressed [OF u sup, of frame] h
  have pf: "process_face (descriptor_distance vis) (cks 0) frame enc w ?s1
              = (Inl UnboundLocalError, w, ?s1)"
    by simp
  from h pf show "run_processing_iteration vis cks frame w s
            = (Crash UnboundLocalError, w, s\<lparr>frame_counter := frame_counter s + 1\<rparr>)"
    by (intro iteration_crash_on_first_face [where locs = locs and enc = enc and encs = encs])
       simp_all
qed
theorem suppressed_event_reuses_previous_id_witness:
  "process_face abs_distance (clock_at 1003) 1 0
       (fresh_shared\<lparr>last_unknown_capture_time := 1000\<rparr>) (fresh_stream [])
     = (Inl UnboundLocalError, fresh_shared\<lparr>last_unknown_capture_time := 1000\<rparr>,
        fresh_stream [])
   \<and> fst (process_face abs_distance (clock_at 1003) 2 0
         (fst (snd (process_face abs_distance (clock_at 1000) 1 0 fresh_shared (fresh_stream []))))
         (snd (snd (process_face abs_distance (clock_at 1000) 1 0 fresh_shared (fresh_stream [])))))
     = Inr ''Intruder_1''
   \<and> run_processing_iteration
        (blind_vision\<lparr>face_locations := (\<lambda>f. Inr [(0, 40, 40, 0)]),
                      face_encodings := (\<lambda>f bs. Inr [0])\<rparr>)
        (clocks_at 1003) 1
        (fresh_shared\<lparr>last_unknown_capture_time := 1000\<rparr>)
        ((fresh_stream [])\<lparr>frame_counter := 3\<rparr>)
     = (Crash UnboundLocalError, fresh_shared\<lparr>last_unknown_capture_time := 1000\<rparr>,
        (fresh_stream [])\<lparr>frame_counter := 4\<rparr>)"
proof -
  have unknown: "recognize_known abs_distance (fresh_stream []) 0
                   = Inr (''Unknown'', ''Intruder'', ''Unknown'')"
    by (simp add: recognize_known_def fresh_stream_def init_stream_def)
  have unknown3: "recognize_known abs_distance ((fresh_stream [])\<lparr>frame_counter := 3\<rparr>) 0
                   = Inr (''Unknown'', ''Intruder'', ''Unknown'')"
    by (simp add: recognize_known_def fresh_stream_def init_stream_def)
  have resolved: "match_or_add_intruder abs_distance RECOGNITION_TOLERANCE
                    (intruder_db fresh_shared) 0
                  = Inr (''Intruder_1'',
                         \<lparr>db_file = Some ([0], [''Intruder_1'']), db_writable = True,
                          db_saves = 1\<rparr>)"
    by (simp add: match_or_add_intruder_def load_intruder_db_def save_intruder_db_def
          fresh_shared_def intruder_id_def str_nat.simps digit_char_def
          compare_faces_def face_distance_def Let_def)
  note th = suppressed_event_reuses_previous_id
  note th_suppressed = th [THEN conjunct2, THEN conjunct1, rule_format]
  note th_reuse = th [THEN conjunct2, THEN conjunct2, THEN conjunct1, rule_format]
  note th_crash = th [THEN conjunct2, THEN conjunct2, THEN conjunct2, rule_format]
  have "recognize_known abs_distance (fresh_stream []) 0
          = Inr (''Unknown'', ''Intruder'', ''Unknown'')
        \<and> time_time (clock_at 1003)
            - last_unknown_capture_time (fresh_shared\<lparr>last_unknown_capture_time := 1000\<rparr>)
          < UNKNOWN_CAPTURE_DEBOUNCE_TIME"
    using unknown by (simp add: clock_at_def UNKNOWN_CAPTURE_DEBOUNCE_TIME_def)
  from th_suppressed [OF this, of 1]
  have a: "process_face abs_distance (clock_at 1003) 1 0
       (fresh_shared\<lparr>last_unknown_capture_time := 1000\<rparr>) (fresh_stream [])
     = (Inl UnboundLocalError, fresh_shared\<lparr>last_unknown_capture_time := 1000\<rparr>,
        fresh_stream [])"
    by (simp add: fresh_stream_def init_stream_def)
  have "recognize_known abs_distance (fresh_stream []) 0
          = Inr (''Unknown'', ''Intruder'', ''Unknown'')
        \<and> time_time (clock_at 1000) - last_unknown_capture_time fresh_shared
          \<ge> UNKNOWN_CAPTURE_DEBOUNCE_TIME
        \<and> match_or_add_intruder abs_distance RECOGNITION_TOLERANCE (intruder_db fresh_shared) 0
          = Inr (''Intruder_1'',
                 \<lparr>db_file = Some ([0], [''Intruder_1'']), db_writable = True, db_saves = 1\<rparr>)
        \<and> recognize_known abs_distance (fresh_stream []) 0
          = Inr (''Unknown'', ''Intruder'', ''Unknown'')
        \<and> time_time (clock_at 1003) - time_time (clock_at 1000)
          < UNKNOWN_CAPTURE_DEBOUNCE_TIME"
    using unknown resolved
    by (simp add: clock_at_def UNKNOWN_CAPTURE_DEBOUNCE_TIME_def fresh_shared_def)
  from th_reuse [OF this, of 2 1]
  have b: "fst (process_face abs_distance (clock_at 1003) 2 0
         (fst (snd (process_face abs_distance (clock_at 1000) 1 0 fresh_shared (fresh_stream []))))
         (snd (snd (process_face abs_distance (clock_at 1000) 1 0 fresh_shared (fresh_stream [])))))
     = Inr ''Intruder_1''" .
  let ?vis = "blind_vision\<lparr>face_locations := (\<lambda>f. Inr [(0, 40, 40, 0)]),
                      face_encodings := (\<lambda>f bs. Inr [0])\<rparr>"
  let ?s = "(fresh_stream [])\<lparr>frame_counter := 3\<rparr>"
  let ?w = "fresh_shared\<lparr>last_unknown_capture_time := 1000\<rparr>"
  have "4 dvd (frame_counter ?s + 1)
        \<and> \<not> frame_invalid ?vis (small_rgb ?vis 1)
        \<and> face_locations ?vis (small_rgb ?vis 1) = Inr [(0, 40, 40, 0)]
        \<and> length [(0 :: int, 40 :: int, 40 :: int, 0 :: int)] \<le> 10
        \<and> face_encodings ?vis (small_rgb ?vis 1)
             (filter valid_face_location [(0, 40, 40, 0)]) = Inr (0 # [])
        \<and> \<not> stop_event ?w
        \<and> recognize_known (descriptor_distance ?vis) ?s 0
            = Inr (''Unknown'', ''Intruder'', ''Unknown'')
        \<and> time_time (clocks_at 1003 0) - last_unknown_capture_time ?w
            < UNKNOWN_CAPTURE_DEBOUNCE_TIME
        \<and> intruder_id_for_event ?s = None"
    using unknown3
    by (simp add: clock_at_def clocks_at_def UNKNOWN_CAPTURE_DEBOUNCE_TIME_def
          fresh_stream_def init_stream_def blind_vision_def fresh_shared_def)
  from th_crash [where vis = "?vis" and cks = "clocks_at 1003" and s = "?s" and w = "?w"
        and frame = 1 and locs = "[(0, 40, 40, 0)]" and enc = 0 and encs = "[]"
        and g = "''Intruder''" and n = "''Unknown''", OF this]
  have c: "run_processing_iteration ?vis (clocks_at 1003) 1 ?w ?s
     = (Crash UnboundLocalError, ?w, (fresh_stream [])\<lparr>frame_counter := 4\<rparr>)"
    by (simp add: fresh_stream_def init_stream_def)
  from a b c show ?thesis by blast
qed

section \<open>The two debounce gates\<close>

lemma process_face_on_known:
  assumes "recognize_known distf (streams p cam) enc = Inr (name, gender, name_only)"
    and "name \<noteq> ''Unknown''"
  shows "process_face_on distf ck frame enc cam p =
           (Inr name_only,
            if (case last_logged_times (streams p cam) name of
                  None \<Rightarrow> True
                | Some t \<Rightarrow> datetime_now ck - t \<ge> KNOWN_FACE_LOG_DEBOUNCE_TIME)
            then p\<lparr>shared_state :=
                     (shared_state p)\<lparr>log_file := log_file (shared_state p)
                                          @ [(name_only, gender, ''N/A'')]\<rparr>,
                   streams :=
                     (streams p)(cam := (streams p cam)\<lparr>last_logged_times :=
                        (last_logged_times (streams p cam))(name \<mapsto> datetime_now ck)\<rparr>)\<rparr>
            else p)"
  using process_face_known [OF assms, of ck frame "shared_state p"]
  by (simp add: process_face_on_def)

text \<open>
  Claim C6. For a face that the catalog recognises under the full label \<open>name\<close>,
  handled by the processing thread of camera \<open>cam\<close>: when the stream of \<open>cam\<close> has a
  timestamp for \<open>name\<close>, a log entry with no image link is appended and the timestamp
  is set to the current time exactly if at least the window of 25 seconds has passed
  since that timestamp, and otherwise the pipeline is left as it was; when the stream
  has no timestamp for \<open>name\<close> yet, the entry is written and the timestamp set. The
  stream of every other camera is left as it was, and replacing the stream of
  another camera by anything changes neither the label nor the log.
\<close>

theorem known_face_log_gate_per_session:
  assumes "recognize_known distf (streams p cam) enc = Inr (name, gender, name_only)"
    and "name \<noteq> ''Unknown''"
  shows "KNOWN_FACE_LOG_DEBOUNCE_TIME = 25
       \<and> process_face_on distf ck frame enc cam p =
           (Inr name_only,
            if (case last_logged_times (streams p cam) name of
                  None \<Rightarrow> True
                | Some t \<Rightarrow> datetime_now ck - t \<ge> KNOWN_FACE_LOG_DEBOUNCE_TIME)
            then p\<lparr>shared_state :=
                     (shared_state p)\<lparr>log_file := log_file (shared_state p)
                                          @ [(name_only, gender, ''N/A'')]\<rparr>,
                   streams :=
                     (streams p)(cam := (streams p cam)\<lparr>last_logged_times :=
                        (last_logged_times (streams p cam))(name \<mapsto> datetime_now ck)\<rparr>)\<rparr>
            else p)
       \<and> (\<forall>other. other \<noteq> cam \<longrightarrow>
             streams (snd (process_face_on distf ck frame enc cam p)) other = streams p other)
       \<and> (\<forall>other st. other \<noteq> cam \<longrightarrow>
             fst (process_face_on distf ck frame enc cam (p\<lparr>streams := (streams p)(other := st)\<rparr>))
               = fst (process_face_on distf ck frame enc cam p)
             \<and> shared_state (snd (process_face_on distf ck frame enc cam
                                    (p\<lparr>streams := (streams p)(other := st)\<rparr>)))
               = shared_state (snd (process_face_on distf ck frame enc cam p)))"
proof (intro conjI allI impI)
  show "KNOWN_FACE_LOG_DEBOUNCE_TIME = 25" by (simp add: KNOWN_FACE_LOG_DEBOUNCE_TIME_def)
  show eq: "process_face_on distf ck frame enc cam p =
           (Inr name_only,
            if (case last_logged_times (streams p cam) name of
                  None \<Rightarrow> True
                | Some t \<Rightarrow> datetime_now ck - t \<ge> KNOWN_FACE_LOG_DEBOUNCE_TIME)
            then p\<lparr>shared_state :=
                     (shared_state p)\<lparr>log_file := log_file (shared_state p)
                                          @ [(name_only, gender, ''N/A'')]\<rparr>,
                   streams :=
                     (streams p)(cam := (streams p cam)\<lparr>last_logged_times :=
                        (last_logged_times (streams p cam))(name \<mapsto> datetime_now ck)\<rparr>)\<rparr>
            else p)"
    using assms by (rule process_face_on_known)
  {
    fix other :: string
    assume "other \<noteq> cam"
    then show "streams (snd (process_face_on distf ck frame enc cam p)) other = streams p other"
      by (simp add: eq)
  }
  {
    fix other :: string and st
    assume ne: "other \<noteq> cam"
    let ?p' = "p\<lparr>streams := (streams p)(other := st)\<rparr>"
    have "recognize_known distf (streams ?p' cam) enc = Inr (name, gender, name_only)"
      using assms(1) ne by simp
    from process_face_on_known [OF this assms(2), of ck frame] ne
    show "fst (process_face_on distf ck frame enc cam ?p')
               = fst (process_face_on distf ck frame enc cam p)"
      and "shared_state (snd (process_face_on distf ck frame enc cam ?p'))
               = shared_state (snd (process_face_on distf ck frame enc cam p))"
      by (simp_all add: eq)
  }
qed

theorem known_face_log_gate_per_session_witness:
  "log_file (shared_state (resolve_at 100 ''0'' alice_pipeline))
     = [(''Alice'', ''female'', ''N/A'')]
   \<and> resolve_at 110 ''0'' (resolve_at 100 ''0'' alice_pipeline)
     = resolve_at 100 ''0'' alice_pipeline
   \<and> log_file (shared_state (resolve_at 125 ''0'' (resolve_at 100 ''0'' alice_pipeline)))
     = [(''Alice'', ''female'', ''N/A''), (''Alice'', ''female'', ''N/A'')]
   \<and> log_file (shared_state (resolve_at 110 ''1'' (resolve_at 100 ''0'' alice_pipeline)))
     = [(''Alice'', ''female'', ''N/A''), (''Alice'', ''female'', ''N/A'')]"
proof -
  note th = known_face_log_gate_per_session [THEN conjunct2, THEN conjunct1]
  have known: "recognize_known abs_distance (streams p cam) 0
                 = Inr (''Alice__female'', ''female'', ''Alice'')"
    if "known_face_encodings (streams p cam) = [0]"
      and "known_face_names (streams p cam) = [''Alice__female'']"
      and "known_face_genders (streams p cam) = [''female'']"
      and "recognition_tolerance (streams p cam) = 6 / 10"
    for p :: "(nat, real) pipeline" and cam
    using that by (simp add: recognize_known_def compare_faces_def face_distance_def
                     abs_distance_def)
  have ne: "''Alice__female'' \<noteq> ''Unknown''" by simp
  have k0: "recognize_known abs_distance (streams alice_pipeline ''0'') 0
              = Inr (''Alice__female'', ''female'', ''Alice'')"
    by (rule known) (simp_all add: alice_pipeline_def init_stream_def RECOGNITION_TOLERANCE_def)
  from th [OF k0 ne, of "clock_at 100" 1]
  have p1: "resolve_at 100 ''0'' alice_pipeline
      = alice_pipeline\<lparr>shared_state :=
           (shared_state alice_pipeline)\<lparr>log_file := [(''Alice'', ''female'', ''N/A'')]\<rparr>,
         streams := (streams alice_pipeline)(''0'' := (streams alice_pipeline ''0'')
           \<lparr>last_logged_times := [''Alice__female'' \<mapsto> 100]\<rparr>)\<rparr>"
    by (simp add: resolve_at_def clock_at_def alice_pipeline_def init_stream_def
          fresh_shared_def)
  let ?p1 = "resolve_at 100 ''0'' alice_pipeline"
  have k1: "recognize_known abs_distance (streams ?p1 ''0'') 0
              = Inr (''Alice__female'', ''female'', ''Alice'')"
    by (rule known; simp only: p1)
       (simp_all add: alice_pipeline_def init_stream_def RECOGNITION_TOLERANCE_def)
  have k1': "recognize_known abs_distance (streams ?p1 ''1'') 0
              = Inr (''Alice__female'', ''female'', ''Alice'')"
    by (rule known; simp only: p1)
       (simp_all add: alice_pipeline_def init_stream_def RECOGNITION_TOLERANCE_def)
  have a: "log_file (shared_state ?p1) = [(''Alice'', ''female'', ''N/A'')]"
    by (simp add: p1)
  from th [OF k1 ne, of "clock_at 110" 1]
  have b: "resolve_at 110 ''0'' ?p1 = ?p1"
    by (simp only: p1) (simp add: resolve_at_def clock_at_def KNOWN_FACE_LOG_DEBOUNCE_TIME_def)
  from th [OF k1 ne, of "clock_at 125" 1]
  have c: "log_file (shared_state (resolve_at 125 ''0'' ?p1))
     = [(''Alice'', ''female'', ''N/A''), (''Alice'', ''female'', ''N/A'')]"
    by (simp only: p1) (simp add: resolve_at_def clock_at_def KNOWN_FACE_LOG_DEBOUNCE_TIME_def)
  from th [OF k1' ne, of "clock_at 110" 1]
  have d: "log_file (shared_state (resolve_at 110 ''1'' ?p1))
     = [(''Alice'', ''female'', ''N/A''), (''Alice'', ''female'', ''N/A'')]"
    by (simp only: p1)
       (simp add: resolve_at_def clock_at_def KNOWN_FACE_LOG_DEBOUNCE_TIME_def
          alice_pipeline_def init_stream_def)
  from a b c d show ?thesis by blast
qed

lemma process_face_on_suppressed:
  assumes "recognize_known distf (streams p cam) enc = Inr (''Unknown'', g, n)"
    and "time_time ck - last_unknown_capture_time (shared_state p)
           < UNKNOWN_CAPTURE_DEBOUNCE_TIME"
  shows "snd (process_face_on distf ck frame enc cam p) = p"
  using process_face_suppressed [OF assms, of frame]
  by (simp add: process_face_on_def)

lemma process_face_on_allowed:
  assumes "recognize_known distf (streams p cam) enc = Inr (''Unknown'', g, n)"
    and "time_time ck - last_unknown_capture_time (shared_state p)
           \<ge> UNKNOWN_CAPTURE_DEBOUNCE_TIME"
    and "match_or_add_intruder distf RECOGNITION_TOLERANCE (intruder_db (shared_state p)) enc
           = Inr (iid, db')"
  shows "snd (process_face_on distf ck frame enc cam p)
           = p\<lparr>shared_state :=
                 (shared_state p)
                   \<lparr>last_unknown_capture_time := time_time ck,
                    intruder_db := db',
                    snapshots := snapshots (shared_state p)
                      @ [(INTRUDERS_FOLDER @ ''/intruder_'' @ capture_stamp ck @ ''.jpg'', frame)],
                    log_file := log_file (shared_state p)
                      @ [(iid, ''Intruder'',
                          INTRUDERS_FOLDER @ ''/intruder_'' @ capture_stamp ck @ ''.jpg'')],
                    alerts := alerts (shared_state p)
                      @ [(INTRUDERS_FOLDER @ ''/intruder_'' @ capture_stamp ck @ ''.jpg'',
                          alert_stamp ck, camera_input (streams p cam))]\<rparr>,
               streams := (streams p)(cam := (streams p cam)\<lparr>intruder_id_for_event := Some iid\<rparr>)\<rparr>"
  using process_face_allowed [OF assms, of frame]
  by (simp add: process_face_on_def)

lemma two_resolutions:
  assumes u1: "recognize_known distf (streams p c1) e1 = Inr (''Unknown'', g1, n1)"
    and u2: "recognize_known distf (streams p c2) e2 = Inr (''Unknown'', g2, n2)"
    and wr: "db_writable (intruder_db (shared_state p))"
    and wf: "length (fst (load_intruder_db (intruder_db (shared_state p))))
               = length (snd (load_intruder_db (intruder_db (shared_state p))))"
    and first: "time_time ck1 - last_unknown_capture_time (shared_state p)
                  \<ge> UNKNOWN_CAPTURE_DEBOUNCE_TIME"
  shows "let w2 = shared_state (snd (process_face_on distf ck2 f2 e2 c2
                                  (snd (process_face_on distf ck1 f1 e1 c1 p))));
             k = (if time_time ck2 - time_time ck1 < UNKNOWN_CAPTURE_DEBOUNCE_TIME
                  then 1 else 2)
         in length (snapshots w2) = length (snapshots (shared_state p)) + k
            \<and> length (log_file w2) = length (log_file (shared_state p)) + k
            \<and> length (alerts w2) = length (alerts (shared_state p)) + k"
proof -
  let ?w = "shared_state p"
  let ?p1 = "snd (process_face_on distf ck1 f1 e1 c1 p)"
  from match_or_add_total [OF wr wf, of distf RECOGNITION_TOLERANCE e1]
  obtain iid1 db1 where
    m1: "match_or_add_intruder distf RECOGNITION_TOLERANCE (intruder_db ?w) e1 = Inr (iid1, db1)"
    and wr1: "db_writable db1"
    and wf1: "length (fst (load_intruder_db db1)) = length (snd (load_intruder_db db1))"
    by blast
  note p1 = process_face_on_allowed [OF u1 first m1, of f1]
  have last1: "last_unknown_capture_time (shared_state ?p1) = time_time ck1"
    by (simp add: p1)
  have db1: "intruder_db (shared_state ?p1) = db1" by (simp add: p1)
  have c1: "length (snapshots (shared_state ?p1)) = length (snapshots ?w) + 1"
    "length (log_file (shared_state ?p1)) = length (log_file ?w) + 1"
    "length (alerts (shared_state ?p1)) = length (alerts ?w) + 1"
    by (simp_all add: p1)
  have "recognize_known distf (streams ?p1 c2) e2 = recognize_known distf (streams p c2) e2"
    by (rule recognize_known_catalog) (simp_all add: p1)
  with u2 have u2': "recognize_known distf (streams ?p1 c2) e2 = Inr (''Unknown'', g2, n2)"
    by simp
  show ?thesis
  proof (cases "time_time ck2 - time_time ck1 < UNKNOWN_CAPTURE_DEBOUNCE_TIME")
    case True
    then have "time_time ck2 - last_unknown_capture_time (shared_state ?p1)
                 < UNKNOWN_CAPTURE_DEBOUNCE_TIME" by (simp add: last1)
    from process_face_on_suppressed [OF u2' this, of f2]
    have "snd (process_face_on distf ck2 f2 e2 c2 ?p1) = ?p1" .
    with True c1 show ?thesis by (simp add: Let_def)
  next
    case False
    then have second: "time_time ck2 - last_unknown_capture_time (shared_state ?p1)
                 \<ge> UNKNOWN_CAPTURE_DEBOUNCE_TIME" by (simp add: last1)
    from match_or_add_total [OF wr1 wf1, of distf RECOGNITION_TOLERANCE e2] db1
    obtain iid2 db2 where
      m2: "match_or_add_intruder distf RECOGNITION_TOLERANCE
             (intruder_db (shared_state ?p1)) e2 = Inr (iid2, db2)"
      by auto
    note p2 = process_face_on_allowed [OF u2' second m2, of f2]
    have "length (snapshots (shared_state (snd (process_face_on distf ck2 f2 e2 c2 ?p1))))
            = length (snapshots (shared_state ?p1)) + 1"
      "length (log_file (shared_state (snd (process_face_on distf ck2 f2 e2 c2 ?p1))))
            = length (log_file (shared_state ?p1)) + 1"
      "length (alerts (shared_state (snd (process_face_on distf ck2 f2 e2 c2 ?p1))))
            = length (alerts (shared_state ?p1)) + 1"
      by (simp_all add: p2)
    with False c1 show ?thesis by (simp add: Let_def)
  qed
qed

text \<open>
  Claim C2. The timestamp of the gate is part of the state that all cameras share,
  and comparing and updating it is one step, as under the lock. For an unknown face
  handled by any camera (the registry file being readable and writable, so that the
  id can be resolved): when less than the window of 10 seconds has passed since the
  stored timestamp, the pipeline is left as it was, with no snapshot, no registry
  access, no log entry and no alert; when at least the window has passed, the
  timestamp becomes the current time, the id is resolved, and exactly one snapshot,
  one log entry naming the snapshot and one alert are added. Consequently two
  resolutions of unknown faces, on the same or on different cameras, give exactly
  one full event when the second comes less than the window after the first, and
  two when it comes at least the window after it, the gate being open for the first;
  in particular, from the state the module starts in (timestamp 0, the clock reading
  seconds since the epoch), two resolutions 3 seconds apart give exactly one full
  event and two resolutions 11 seconds apart give two.
\<close>

theorem unknown_event_debounce_gate:
  assumes "recognize_known distf (streams p c1) e1 = Inr (''Unknown'', g1, n1)"
    and "recognize_known distf (streams p c2) e2 = Inr (''Unknown'', g2, n2)"
    and "db_writable (intruder_db (shared_state p))"
    and "length (fst (load_intruder_db (intruder_db (shared_state p))))
           = length (snd (load_intruder_db (intruder_db (shared_state p))))"
  shows "UNKNOWN_CAPTURE_DEBOUNCE_TIME = 10
   \<and> (time_time ck1 - last_unknown_capture_time (shared_state p)
          < UNKNOWN_CAPTURE_DEBOUNCE_TIME
        \<longrightarrow> snd (process_face_on distf ck1 f1 e1 c1 p) = p)
   \<and> (time_time ck1 - last_unknown_capture_time (shared_state p)
          \<ge> UNKNOWN_CAPTURE_DEBOUNCE_TIME
        \<longrightarrow> (\<exists>iid db'.
              match_or_add_intruder distf RECOGNITION_TOLERANCE
                  (intruder_db (shared_state p)) e1 = Inr (iid, db')
              \<and> snd (process_face_on distf ck1 f1 e1 c1 p)
                = p\<lparr>shared_state :=
                      (shared_state p)
                        \<lparr>last_unknown_capture_time := time_time ck1,
                         intruder_db := db',
                         snapshots := snapshots (shared_state p)
                           @ [(INTRUDERS_FOLDER @ ''/intruder_'' @ capture_stamp ck1 @ ''.jpg'',
                               f1)],
                         log_file := log_file (shared_state p)
                           @ [(iid, ''Intruder'',
                               INTRUDERS_FOLDER @ ''/intruder_'' @ capture_stamp ck1 @ ''.jpg'')],
                         alerts := alerts (shared_state p)
                           @ [(INTRUDERS_FOLDER @ ''/intruder_'' @ capture_stamp ck1 @ ''.jpg'',
                               alert_stamp ck1, camera_input (streams p c1))]\<rparr>,
                    streams := (streams p)
                      (c1 := (streams p c1)\<lparr>intruder_id_for_event := Some iid\<rparr>)\<rparr>))
   \<and> (time_time ck1 - last_unknown_capture_time (shared_state p)
          \<ge> UNKNOWN_CAPTURE_DEBOUNCE_TIME
        \<longrightarrow> (let w2 = shared_state (snd (process_face_on distf ck2 f2 e2 c2
                                  (snd (process_face_on distf ck1 f1 e1 c1 p))));
                 k = (if time_time ck2 - time_time ck1 < UNKNOWN_CAPTURE_DEBOUNCE_TIME
                      then 1 else 2)
             in length (snapshots w2) = length (snapshots (shared_state p)) + k
                \<and> length (log_file w2) = length (log_file (shared_state p)) + k
                \<and> length (alerts w2) = length (alerts (shared_state p)) + k))
   \<and> (last_unknown_capture_time (shared_state p) = 0 \<and> time_time ck1 \<ge> 10
          \<and> time_time ck2 = time_time ck1 + 3
        \<longrightarrow> (let w2 = shared_state (snd (process_face_on distf ck2 f2 e2 c2
                                  (snd (process_face_on distf ck1 f1 e1 c1 p))))
             in length (snapshots w2) = length (snapshots (shared_state p)) + 1
                \<and> length (log_file w2) = length (log_file (shared_state p)) + 1
                \<and> length (alerts w2) = length (alerts (shared_state p)) + 1))
   \<and> (last_unknown_capture_time (shared_state p) = 0 \<and> time_time ck1 \<ge> 10
          \<and> time_time ck2 = time_time ck1 + 11
        \<longrightarrow> (let w2 = shared_state (snd (process_face_on distf ck2 f2 e2 c2
                                  (snd (process_face_on distf ck1 f1 e1 c1 p))))
             in length (snapshots w2) = length (snapshots (shared_state p)) + 2
                \<and> length (log_file w2) = length (log_file (shared_state p)) + 2
                \<and> length (alerts w2) = length (alerts (shared_state p)) + 2))"
proof (intro conjI impI)
  show "UNKNOWN_CAPTURE_DEBOUNCE_TIME = 10" by (simp add: UNKNOWN_CAPTURE_DEBOUNCE_TIME_def)
next
  assume "time_time ck1 - last_unknown_capture_time (shared_state p)
            < UNKNOWN_CAPTURE_DEBOUNCE_TIME"
  with assms(1) show "snd (process_face_on distf ck1 f1 e1 c1 p) = p"
    by (rule process_face_on_suppressed)
next
  assume allowed: "time_time ck1 - last_unknown_capture_time (shared_state p)
            \<ge> UNKNOWN_CAPTURE_DEBOUNCE_TIME"
  from match_or_add_total [OF assms(3,4), of distf RECOGNITION_TOLERANCE e1]
  obtain iid db' where
    m: "match_or_add_intruder distf RECOGNITION_TOLERANCE (intruder_db (shared_state p)) e1
          = Inr (iid, db')"
    by blast
  note eq = process_face_on_allowed [OF assms(1) allowed m, of f1]
  from m eq
  show "\<exists>iid db'.
              match_or_add_intruder distf RECOGNITION_TOLERANCE
                  (intruder_db (shared_state p)) e1 = Inr (iid, db')
              \<and> snd (process_face_on distf ck1 f1 e1 c1 p)
                = p\<lparr>shared_state :=
                      (shared_state p)
                        \<lparr>last_unknown_capture_time := time_time ck1,
                         intruder_db := db',
                         snapshots := snapshots (shared_state p)
                           @ [(INTRUDERS_FOLDER @ ''/intruder_'' @ capture_stamp ck1 @ ''.jpg'',
                               f1)],
                         log_file := log_file (shared_state p)
                           @ [(iid, ''Intruder'',
                               INTRUDERS_FOLDER @ ''/intruder_'' @ capture_stamp ck1 @ ''.jpg'')],
                         alerts := alerts (shared_state p)
                           @ [(INTRUDERS_FOLDER @ ''/intruder_'' @ capture_stamp ck1 @ ''.jpg'',
                               alert_stamp ck1, camera_input (streams p c1))]\<rparr>,
                    streams := (streams p)
                      (c1 := (streams p c1)\<lparr>intruder_id_for_event := Some iid\<rparr>)\<rparr>"
    by blast
next
  assume allowed: "time_time ck1 - last_unknown_capture_time (shared_state p)
            \<ge> UNKNOWN_CAPTURE_DEBOUNCE_TIME"
  from assms allowed
  show "let w2 = shared_state (snd (process_face_on distf ck2 f2 e2 c2
                                  (snd (process_face_on distf ck1 f1 e1 c1 p))));
            k = (if time_time ck2 - time_time ck1 < UNKNOWN_CAPTURE_DEBOUNCE_TIME
                 then 1 else 2)
        in length (snapshots w2) = length (snapshots (shared_state p)) + k
           \<and> length (log_file w2) = length (log_file (shared_state p)) + k
           \<and> length (alerts w2) = length (alerts (shared_state p)) + k"
    by (rule two_resolutions)
next
  assume start: "last_unknown_capture_time (shared_state p) = 0 \<and> time_time ck1 \<ge> 10
          \<and> time_time ck2 = time_time ck1 + 3"
  then have allowed: "time_time ck1 - last_unknown_capture_time (shared_state p)
            \<ge> UNKNOWN_CAPTURE_DEBOUNCE_TIME"
    by (simp add: UNKNOWN_CAPTURE_DEBOUNCE_TIME_def)
  from start have near: "time_time ck2 - time_time ck1 < UNKNOWN_CAPTURE_DEBOUNCE_TIME"
    by (simp add: UNKNOWN_CAPTURE_DEBOUNCE_TIME_def)
  from two_resolutions [OF assms allowed, of ck2 f2 f1] near
  show "let w2 = shared_state (snd (process_face_on distf ck2 f2 e2 c2
                                  (snd (process_face_on distf ck1 f1 e1 c1 p))))
        in length (snapshots w2) = length (snapshots (shared_state p)) + 1
           \<and> length (log_file w2) = length (log_file (shared_state p)) + 1
           \<and> length (alerts w2) = length (alerts (shared_state p)) + 1"
    by (simp add: Let_def)
next
  assume start: "last_unknown_capture_time (shared_state p) = 0 \<and> time_time ck1 \<ge> 10
          \<and> time_time ck2 = time_time ck1 + 11"
  then have allowed: "time_time ck1 - last_unknown_capture_time (shared_state p)
            \<ge> UNKNOWN_CAPTURE_DEBOUNCE_TIME"
    by (simp add: UNKNOWN_CAPTURE_DEBOUNCE_TIME_def)
  from start have far: "\<not> time_time ck2 - time_time ck1 < UNKNOWN_CAPTURE_DEBOUNCE_TIME"
    by (simp add: UNKNOWN_CAPTURE_DEBOUNCE_TIME_def)
  from two_resolutions [OF assms allowed, of ck2 f2 f1] far
  show "let w2 = shared_state (snd (process_face_on distf ck2 f2 e2 c2
                                  (snd (process_face_on distf ck1 f1 e1 c1 p))))
        in length (snapshots w2) = length (snapshots (shared_state p)) + 2
           \<and> length (log_file w2) = length (log_file (shared_state p)) + 2
           \<and> length (alerts w2) = length (alerts (shared_state p)) + 2"
    by (simp add: Let_def)
qed

theorem unknown_event_debounce_gate_witness:
  "resolve_at 103 ''1'' (fresh_pipeline\<lparr>shared_state :=
       fresh_shared\<lparr>last_unknown_capture_time := 100\<rparr>\<rparr>)
     = fresh_pipeline\<lparr>shared_state := fresh_shared\<lparr>last_unknown_capture_time := 100\<rparr>\<rparr>
   \<and> length (alerts (shared_state
        (resolve_at 1003 ''1'' (resolve_at 1000 ''0'' fresh_pipeline)))) = 1
   \<and> length (alerts (shared_state
        (resolve_at 1011 ''1'' (resolve_at 1000 ''0'' fresh_pipeline)))) = 2"
proof -
  have u: "recognize_known abs_distance (streams fresh_pipeline c) 0
             = Inr (''Unknown'', ''Intruder'', ''Unknown'')" for c
    by (simp add: recognize_known_def fresh_pipeline_def init_stream_def)
  have wr: "db_writable (intruder_db (shared_state fresh_pipeline))"
    by (simp add: fresh_pipeline_def fresh_shared_def)
  have wf: "length (fst (load_intruder_db (intruder_db (shared_state fresh_pipeline))))
              = length (snd (load_intruder_db (intruder_db (shared_state fresh_pipeline))))"
    by (simp add: fresh_pipeline_def fresh_shared_def load_intruder_db_def)
  let ?q = "fresh_pipeline\<lparr>shared_state := fresh_shared\<lparr>last_unknown_capture_time := 100\<rparr>\<rparr>"
  have uq: "recognize_known abs_distance (streams ?q c) 0
             = Inr (''Unknown'', ''Intruder'', ''Unknown'')" for c
    using u [of c] by simp
  have wrq: "db_writable (intruder_db (shared_state ?q))"
    by (simp add: fresh_shared_def)
  have wfq: "length (fst (load_intruder_db (intruder_db (shared_state ?q))))
              = length (snd (load_intruder_db (intruder_db (shared_state ?q))))"
    by (simp add: fresh_shared_def load_intruder_db_def)
  have sup: "time_time (clock_at 103) - last_unknown_capture_time (shared_state ?q)
               < UNKNOWN_CAPTURE_DEBOUNCE_TIME"
    by (simp add: clock_at_def UNKNOWN_CAPTURE_DEBOUNCE_TIME_def)
  from unknown_event_debounce_gate
         [OF uq [of "''1''"] uq [of "''1''"] wrq wfq, THEN conjunct2, THEN conjunct1, rule_format,
          OF sup, of 1]
  have a: "resolve_at 103 ''1'' ?q = ?q" by (simp add: resolve_at_def)
  have start3: "last_unknown_capture_time (shared_state fresh_pipeline) = 0
                 \<and> time_time (clock_at 1000) \<ge> 10
                 \<and> time_time (clock_at 1003) = time_time (clock_at 1000) + 3"
    by (simp add: clock_at_def fresh_pipeline_def fresh_shared_def)
  have start11: "last_unknown_capture_time (shared_state fresh_pipeline) = 0
                 \<and> time_time (clock_at 1000) \<ge> 10
                 \<and> time_time (clock_at 1011) = time_time (clock_at 1000) + 11"
    by (simp add: clock_at_def fresh_pipeline_def fresh_shared_def)
  from unknown_event_debounce_gate
         [OF u [of "''0''"] u [of "''1''"] wr wf, THEN conjunct2, THEN conjunct2, THEN conjunct2,
          THEN conjunct2, THEN conjunct1, rule_format, OF start3, of 1 1]
  have b: "length (alerts (shared_state
        (resolve_at 1003 ''1'' (resolve_at 1000 ''0'' fresh_pipeline)))) = 1"
    by (simp add: resolve_at_def Let_def fresh_pipeline_def fresh_shared_def)
  from unknown_event_debounce_gate
         [OF u [of "''0''"] u [of "''1''"] wr wf, THEN conjunct2, THEN conjunct2, THEN conjunct2,
          THEN conjunct2, THEN conjunct2, rule_format, OF start11, of 1 1]
  have c: "length (alerts (shared_state
        (resolve_at 1011 ''1'' (resolve_at 1000 ''0'' fresh_pipeline)))) = 2"
    by (simp add: resolve_at_def Let_def fresh_pipeline_def fresh_shared_def)
  from a b c show ?thesis by blast
qed

end
